theory Spec2Isabelle
  imports Main "HOL-Library.Word"
begin

unbundle bit_operations_syntax

section \<open>Cache records and their parent relation (cache/refs.go)\<close>

text \<open>
  A \<^verbatim>\<open>cacheRecord\<close> embeds \<^verbatim>\<open>parentRefs\<close>, a struct of three fields of which at most
  one should be populated: \<^verbatim>\<open>layerParent\<close>, \<^verbatim>\<open>mergeParents\<close>, \<^verbatim>\<open>diffParents\<close>. The
  fields hold \<^verbatim>\<open>*immutableRef\<close> handles; a handle is modelled by the record it points
  to (its embedded \<^verbatim>\<open>*cacheRecord\<close>), so a record is a finite tree over its parents and
  two handles on one record are equal values. The metadata of a record
  (\<^verbatim>\<open>*cacheMetadata\<close>) is kept in a store keyed by the record id, see below.
\<close>

datatype cacheRecord = CacheRecord
  (ID: string)
  (layerParent: "cacheRecord option")
  (mergeParents: "cacheRecord list")
  (diffParents: "diffParents option")
and diffParents = DiffParents
  (lower: "cacheRecord option")
  (upper: "cacheRecord option")

datatype refKind = BaseLayer | Layer | Merge | Diff

text \<open>\<^verbatim>\<open>func (cr *cacheRecord) kind() refKind\<close>: the order of the tests is the source's.\<close>

definition kind :: "cacheRecord \<Rightarrow> refKind" where
  "kind cr =
     (if length (mergeParents cr) > 0 then Merge
      else if diffParents cr \<noteq> None then Diff
      else if layerParent cr \<noteq> None then Layer
      else BaseLayer)"

subsection \<open>layerWalk and layerChain\<close>

text \<open>
  \<^verbatim>\<open>func (sr *immutableRef) layerWalk(f func(*immutableRef))\<close>. The callback mutates
  variables of its caller, so it is a state transformer \<open>f r :: 's \<Rightarrow> 's\<close> and the walk
  threads the state through the calls in the order the source makes them. In the
  \<^verbatim>\<open>Layer\<close> case the source walks \<^verbatim>\<open>sr.layerParent\<close> and falls through to the
  \<^verbatim>\<open>BaseLayer\<close> case, which calls \<^verbatim>\<open>f(sr)\<close>. A record of kind \<^verbatim>\<open>Layer\<close> has a layer
  parent and one of kind \<^verbatim>\<open>Diff\<close> has diff parents, by \<open>kind\<close>; the \<open>None\<close> branches
  below are unreachable and leave the state as it is.
\<close>

function layerWalk :: "(cacheRecord \<Rightarrow> 's \<Rightarrow> 's) \<Rightarrow> cacheRecord \<Rightarrow> 's \<Rightarrow> 's" where
  "layerWalk f sr s =
     (case kind sr of
        Merge \<Rightarrow> fold (\<lambda>parent. layerWalk f parent) (mergeParents sr) s
      | Diff \<Rightarrow>
          (case diffParents sr of
             None \<Rightarrow> s
           | Some dp \<Rightarrow>
               (case (lower dp, upper dp) of
                  (None, Some up) \<Rightarrow>
                     if kind up = BaseLayer then f up s else f sr s
                | (Some lo, Some up) \<Rightarrow>
                     if kind up = Layer \<and> map_option ID (layerParent up) = Some (ID lo)
                     then f up s else f sr s
                | (_, None) \<Rightarrow> f sr s))
      | Layer \<Rightarrow>
          (case layerParent sr of
             None \<Rightarrow> s
           | Some parent \<Rightarrow> f sr (layerWalk f parent s))
      | BaseLayer \<Rightarrow> f sr s)"
  by pat_completeness auto

lemma size_mergeParents: "p \<in> set (mergeParents sr) \<Longrightarrow> size p < size sr"
  by (cases sr) (auto simp: less_Suc_eq_le dest!: size_list_estimation'[where f = size and y = "size p"])

lemma size_layerParent: "layerParent sr = Some p \<Longrightarrow> size p < size sr"
  by (cases sr) auto

termination layerWalk
  by (relation "measure (\<lambda>(f, sr, s). size sr)")
     (auto simp: size_mergeParents size_layerParent)

declare layerWalk.simps [simp del]

text \<open>
  \<^verbatim>\<open>func (sr *immutableRef) layerChain() []*immutableRef\<close> walks twice: once to count
  the layers and once to store them at increasing indexes of a slice of that length.
\<close>

definition layerChain :: "cacheRecord \<Rightarrow> cacheRecord list" where
  "layerChain sr =
     (let count = layerWalk (\<lambda>_ (n::nat). n + 1) sr 0;
          layers = replicate count None;
          (layers, index) =
             layerWalk (\<lambda>r (ls, i). (ls[i := Some r], i + 1)) sr (layers, 0::nat)
      in map the layers)"

text \<open>
  The list of the records \<open>layerWalk\<close> hands to its callback, in the order of the
  calls. It is a proof device: \<open>layerWalk_fold\<close> shows that it is what the walk does.
\<close>

function layerList :: "cacheRecord \<Rightarrow> cacheRecord list" where
  "layerList sr =
     (case kind sr of
        Merge \<Rightarrow> concat (map layerList (mergeParents sr))
      | Diff \<Rightarrow>
          (case diffParents sr of
             None \<Rightarrow> []
           | Some dp \<Rightarrow>
               (case (lower dp, upper dp) of
                  (None, Some up) \<Rightarrow> if kind up = BaseLayer then [up] else [sr]
                | (Some lo, Some up) \<Rightarrow>
                     if kind up = Layer \<and> map_option ID (layerParent up) = Some (ID lo)
                     then [up] else [sr]
                | (_, None) \<Rightarrow> [sr]))
      | Layer \<Rightarrow>
          (case layerParent sr of
             None \<Rightarrow> []
           | Some parent \<Rightarrow> layerList parent @ [sr])
      | BaseLayer \<Rightarrow> [sr])"
  by pat_completeness auto

termination layerList
  by (relation "measure size") (auto simp: size_mergeParents size_layerParent)

declare layerList.simps [simp del]

text \<open>
  The claim's description of the two cases in which a \<^verbatim>\<open>Diff\<close> record re-uses its upper
  layer: upper is a base layer and lower is nil, or upper is a single layer whose layer
  parent is lower (the source compares the two record ids).
\<close>

definition upperIsSingleLayer :: "diffParents \<Rightarrow> bool" where
  "upperIsSingleLayer dp =
     (case upper dp of
        None \<Rightarrow> False
      | Some up \<Rightarrow>
          (case lower dp of
             None \<Rightarrow> kind up = BaseLayer
           | Some lo \<Rightarrow> kind up = Layer \<and> map_option ID (layerParent up) = Some (ID lo)))"

lemma fold_layerWalk_concat:
  assumes "\<And>p s. p \<in> set ps \<Longrightarrow> layerWalk f p s = fold f (g p) s"
  shows "fold (\<lambda>parent. layerWalk f parent) ps s = fold f (concat (map g ps)) s"
  using assms by (induction ps arbitrary: s) auto

lemma layerWalk_fold: "layerWalk f sr s = fold f (layerList sr) s"
proof (induction f sr s rule: layerWalk.induct)
  case (1 f sr s)
  show ?case
  proof (cases "kind sr")
    case Merge
    have "\<And>p s. p \<in> set (mergeParents sr) \<Longrightarrow> layerWalk f p s = fold f (layerList p) s"
      using "1.IH"(2)[OF Merge] by simp
    then show ?thesis
      using Merge
      by (subst layerWalk.simps, subst layerList.simps) (simp add: fold_layerWalk_concat)
  next
    case Diff
    then show ?thesis
      by (subst layerWalk.simps, subst layerList.simps)
         (auto split: option.splits prod.splits)
  next
    case Layer
    then show ?thesis
      using "1.IH"(1)[OF Layer]
      by (subst layerWalk.simps, subst layerList.simps) (simp split: option.splits)
  next
    case BaseLayer
    then show ?thesis
      by (subst layerWalk.simps, subst layerList.simps) simp
  qed
qed

lemma fill_layers:
  "fold (\<lambda>r (ls, i). (ls[i := Some r], i + 1)) xs
        (map Some pre @ replicate (length xs + k) None, length pre)
     = (map Some (pre @ xs) @ replicate k None, length pre + length xs)"
proof (induction xs arbitrary: pre)
  case Nil
  then show ?case by simp
next
  case (Cons x xs)
  have "(map Some pre @ replicate (length (x # xs) + k) None)[length pre := Some x]
          = map Some (pre @ [x]) @ replicate (length xs + k) None"
    by (simp add: list_update_append)
  then show ?case using Cons.IH[of "pre @ [x]"] by simp
qed

lemma fold_count: "fold (\<lambda>_ (n::nat). n + 1) xs n = n + length xs"
  by (induction xs arbitrary: n) auto

lemma layerChain_layerList: "layerChain sr = layerList sr"
proof -
  have cnt: "layerWalk (\<lambda>_ (n::nat). n + 1) sr 0 = length (layerList sr)"
    by (simp only: layerWalk_fold fold_count)
  have fill:
    "layerWalk (\<lambda>r (ls, i). (ls[i := Some r], i + 1)) sr
        (replicate (length (layerList sr)) None, 0::nat)
       = (map Some (layerList sr), length (layerList sr))"
    using fill_layers[where xs = "layerList sr" and k = 0 and pre = "[]"]
    by (simp add: layerWalk_fold)
  show ?thesis
    by (simp only: layerChain_def Let_def cnt fill) (simp add: comp_def)
qed

lemma layerChain_eq: "layerChain = layerList"
  by (rule ext) (rule layerChain_layerList)

lemma kind_Layer_parent: "kind sr = Layer \<Longrightarrow> \<exists>p. layerParent sr = Some p"
  by (auto simp: kind_def split: if_splits)

lemma kind_Diff_parents: "kind sr = Diff \<Longrightarrow> \<exists>dp. diffParents sr = Some dp"
  by (auto simp: kind_def split: if_splits)

text \<open>
  Claim C6. \<open>layerWalk\<close> calls its callback once per element of \<open>layerChain\<close>, in that
  order, and the chain is built lowest to highest: a merge walks its parents in slice
  order, a layer walks its layer parent's chain and then emits itself, a base layer
  emits itself. A diff record emits its upper layer in its own place exactly when upper
  is a base layer against a nil lower or a single layer whose layer parent is lower, and
  emits itself in every other case.
\<close>

theorem layerWalk_visits_lowest_to_highest:
  "layerWalk f sr s = fold f (layerChain sr) s \<and>
   layerChain sr =
     (case kind sr of
        Merge \<Rightarrow> concat (map layerChain (mergeParents sr))
      | Layer \<Rightarrow> layerChain (the (layerParent sr)) @ [sr]
      | BaseLayer \<Rightarrow> [sr]
      | Diff \<Rightarrow>
          [if upperIsSingleLayer (the (diffParents sr))
           then the (upper (the (diffParents sr))) else sr])"
proof
  show "layerWalk f sr s = fold f (layerChain sr) s"
    by (simp only: layerChain_layerList layerWalk_fold)
next
  show "layerChain sr =
     (case kind sr of
        Merge \<Rightarrow> concat (map layerChain (mergeParents sr))
      | Layer \<Rightarrow> layerChain (the (layerParent sr)) @ [sr]
      | BaseLayer \<Rightarrow> [sr]
      | Diff \<Rightarrow>
          [if upperIsSingleLayer (the (diffParents sr))
           then the (upper (the (diffParents sr))) else sr])"
  proof (cases "kind sr")
    case Merge
    then have "layerList sr = concat (map layerList (mergeParents sr))"
      by (subst layerList.simps) simp
    then show ?thesis
      using Merge by (simp add: layerChain_eq)
  next
    case Layer
    then obtain p where p: "layerParent sr = Some p"
      using kind_Layer_parent by blast
    with Layer have "layerList sr = layerList p @ [sr]"
      by (subst layerList.simps) simp
    then show ?thesis
      using Layer p by (simp add: layerChain_eq)
  next
    case BaseLayer
    then have "layerList sr = [sr]"
      by (subst layerList.simps) simp
    then show ?thesis
      using BaseLayer by (simp add: layerChain_eq)
  next
    case Diff
    then obtain dp where dp: "diffParents sr = Some dp"
      using kind_Diff_parents by blast
    with Diff have "layerList sr = [if upperIsSingleLayer dp then the (upper dp) else sr]"
      by (subst layerList.simps)
         (auto simp: upperIsSingleLayer_def split: option.splits)
    then show ?thesis
      using Diff dp by (simp add: layerChain_eq)
  qed
qed

section \<open>Merge (cache/manager.go, cacheManager.Merge)\<close>

text \<open>
  The errors of the package, and the errors of the collaborators it tests for
  (\<^verbatim>\<open>errdefs.ErrNotFound\<close>, \<^verbatim>\<open>errdefs.ErrAlreadyExists\<close>). \<open>errSkipWalk\<close> is the
  sentinel of \<^verbatim>\<open>walkAncestors\<close>. \<open>OtherError\<close> is any other error of a collaborator.
\<close>

datatype error =
    ErrLocked
  | errNotFound
  | errInvalid
  | errSkipWalk
  | NeedsRemoteProvidersError "string list"
  | errdefs_ErrNotFound
  | errdefs_ErrAlreadyExists
  | OtherError string

text \<open>
  The loop of \<^verbatim>\<open>Merge\<close> over \<^verbatim>\<open>inputParents\<close> (manager.go, the \<^verbatim>\<open>for\<close> before the two
  length tests). A nil input is skipped. The \<^verbatim>\<open>switch parent.kind()\<close> has the cases
  \<^verbatim>\<open>Merge\<close> (append a clone of every grandparent) and \<^verbatim>\<open>Layer, BaseLayer\<close> (append a
  clone of the parent) and no other: for a parent of kind \<^verbatim>\<open>Diff\<close> nothing is
  appended. A clone is a new handle on the same record. Every input is taken to be an
  \<^verbatim>\<open>*immutableRef\<close> already (the source fetches one with \<^verbatim>\<open>cm.Get\<close> otherwise).
\<close>

definition Merge_parents :: "cacheRecord option list \<Rightarrow> cacheRecord list" where
  "Merge_parents inputParents =
     fold (\<lambda>inputParent parents.
             case inputParent of
               None \<Rightarrow> parents
             | Some parent \<Rightarrow>
                 (case kind parent of
                    Merge \<Rightarrow> fold (\<lambda>grandparent ps. ps @ [grandparent]) (mergeParents parent) parents
                  | Layer \<Rightarrow> parents @ [parent]
                  | BaseLayer \<Rightarrow> parents @ [parent]
                  | Diff \<Rightarrow> parents))
          inputParents []"

text \<open>
  \<^verbatim>\<open>func (cm *cacheManager) Merge(ctx, inputParents, opts...)\<close>. \<open>newID\<close> is the result of
  \<^verbatim>\<open>identity.NewID()\<close>. After the two length tests the source finalizes the parents,
  initializes and commits the metadata and creates the lease; \<open>ext\<close> is the first error
  of these calls to the collaborators, if any. The result is nil, an existing ref, or a
  ref to the new record, whose \<^verbatim>\<open>parentRefs\<close> has \<^verbatim>\<open>mergeParents\<close> only.
\<close>

definition cacheManager_Merge ::
  "string \<Rightarrow> error option \<Rightarrow> cacheRecord option list \<Rightarrow> error + cacheRecord option" where
  "cacheManager_Merge newID ext inputParents =
     (let parents = Merge_parents inputParents in
      if length parents = 0 then Inr None
      else if length parents = 1 then Inr (Some (parents ! 0))
      else (case ext of
              Some err \<Rightarrow> Inl err
            | None \<Rightarrow> Inr (Some (CacheRecord newID None parents None))))"

text \<open>
  The flattened parent list as the claim describes it: nil inputs are dropped and an
  input that is itself a merge record is replaced by its own merge parents; every
  other input stays.
\<close>

definition flattened_parents :: "cacheRecord option list \<Rightarrow> cacheRecord list" where
  "flattened_parents inputParents =
     concat (map (\<lambda>inputParent.
                    case inputParent of
                      None \<Rightarrow> []
                    | Some parent \<Rightarrow>
                        if kind parent = Merge then mergeParents parent else [parent])
                 inputParents)"

lemma fold_snoc_append: "fold (\<lambda>x ps. ps @ [x]) xs acc = acc @ xs"
  by (induction xs arbitrary: acc) auto

lemma Merge_parents_fold:
  "fold (\<lambda>inputParent parents.
             case inputParent of
               None \<Rightarrow> parents
             | Some parent \<Rightarrow>
                 (case kind parent of
                    Merge \<Rightarrow> fold (\<lambda>grandparent ps. ps @ [grandparent]) (mergeParents parent) parents
                  | Layer \<Rightarrow> parents @ [parent]
                  | BaseLayer \<Rightarrow> parents @ [parent]
                  | Diff \<Rightarrow> parents))
          inputParents acc
     = acc @ concat (map (\<lambda>inputParent.
                    case inputParent of
                      None \<Rightarrow> []
                    | Some parent \<Rightarrow>
                        (case kind parent of
                           Merge \<Rightarrow> mergeParents parent
                         | Layer \<Rightarrow> [parent]
                         | BaseLayer \<Rightarrow> [parent]
                         | Diff \<Rightarrow> []))
                 inputParents)"
  by (induction inputParents arbitrary: acc)
     (auto simp: fold_snoc_append split: option.splits refKind.splits)

text \<open>What the loop of the source computes, one input at a time.\<close>

lemma Merge_parents_concat:
  "Merge_parents inputParents =
     concat (map (\<lambda>inputParent.
                    case inputParent of
                      None \<Rightarrow> []
                    | Some parent \<Rightarrow>
                        (case kind parent of
                           Merge \<Rightarrow> mergeParents parent
                         | Layer \<Rightarrow> [parent]
                         | BaseLayer \<Rightarrow> [parent]
                         | Diff \<Rightarrow> []))
                 inputParents)"
  unfolding Merge_parents_def by (subst Merge_parents_fold) simp

lemma Merge_parents_Nil: "Merge_parents [] = []"
  by (simp add: Merge_parents_concat)

lemma Merge_parents_Cons:
  "Merge_parents (inputParent # rest) =
     (case inputParent of
        None \<Rightarrow> []
      | Some parent \<Rightarrow>
          (case kind parent of
             Merge \<Rightarrow> mergeParents parent
           | Layer \<Rightarrow> [parent]
           | BaseLayer \<Rightarrow> [parent]
           | Diff \<Rightarrow> [])) @ Merge_parents rest"
  by (simp add: Merge_parents_concat)

lemma Merge_parents_append:
  "Merge_parents (xs @ ys) = Merge_parents xs @ Merge_parents ys"
  by (induction xs) (simp_all add: Merge_parents_Nil Merge_parents_Cons)

text \<open>
  On inputs none of which is of kind \<^verbatim>\<open>Diff\<close> the loop computes the flattened parent
  list of the claim.
\<close>

lemma Merge_parents_flattened:
  assumes "\<forall>p. Some p \<in> set inputParents \<longrightarrow> kind p \<noteq> Diff"
  shows "Merge_parents inputParents = flattened_parents inputParents"
  using assms
proof (induction inputParents)
  case Nil
  then show ?case by (simp add: Merge_parents_Nil flattened_parents_def)
next
  case (Cons a inputParents)
  then have "Merge_parents inputParents = flattened_parents inputParents"
    by simp
  moreover have "flattened_parents (a # inputParents)
      = (case a of None \<Rightarrow> [] | Some parent \<Rightarrow>
           if kind parent = Merge then mergeParents parent else [parent])
        @ flattened_parents inputParents"
    by (simp add: flattened_parents_def)
  ultimately show ?case
    using Cons.prems
    by (cases a) (auto simp: Merge_parents_Cons split: refKind.splits)
qed

text \<open>
  The flattening law on the code: when the merge parents of every input that is a
  merge record are layers or base layers (which \<open>Merge_result_not_nested\<close> below shows
  of every record \<^verbatim>\<open>Merge\<close> creates), merging the result of \<open>Merge [a, b]\<close> with \<open>c\<close>
  gives the result of \<open>Merge [a, b, c]\<close>, the fresh id being the same.
\<close>

definition layersOnly :: "cacheRecord list \<Rightarrow> bool" where
  "layersOnly ps = list_all (\<lambda>p. kind p = Layer \<or> kind p = BaseLayer) ps"

definition flatInput :: "cacheRecord option \<Rightarrow> bool" where
  "flatInput inputParent =
     (case inputParent of
        None \<Rightarrow> True
      | Some parent \<Rightarrow> if kind parent = Merge then layersOnly (mergeParents parent) else True)"

lemma Merge_parents_layersOnly:
  "list_all flatInput inputParents \<Longrightarrow> layersOnly (Merge_parents inputParents)"
proof (induction inputParents)
  case Nil
  then show ?case by (simp add: Merge_parents_Nil layersOnly_def)
next
  case (Cons a inputParents)
  then show ?case
    by (cases a)
       (auto simp: Merge_parents_Cons layersOnly_def flatInput_def split: refKind.splits)
qed

lemma Merge_result_not_nested:
  assumes "list_all flatInput inputParents"
    and "cacheManager_Merge newID ext inputParents = Inr (Some r)"
    and "kind r = Merge"
  shows "layersOnly (mergeParents r)"
proof -
  have lo: "layersOnly (Merge_parents inputParents)"
    using assms(1) by (rule Merge_parents_layersOnly)
  show ?thesis
  proof (cases "length (Merge_parents inputParents) = 1")
    case True
    then obtain x where x: "Merge_parents inputParents = [x]"
      by (cases "Merge_parents inputParents") auto
    with assms(2) have "r = x"
      by (simp add: cacheManager_Merge_def)
    with lo x assms(3) show ?thesis
      by (simp add: layersOnly_def)
  next
    case False
    with assms(2) have "mergeParents r = Merge_parents inputParents"
      by (auto simp: cacheManager_Merge_def Let_def split: if_splits option.splits)
    with lo show ?thesis by simp
  qed
qed

lemma Merge_parents_of_result:
  assumes "list_all flatInput inputParents"
    and "cacheManager_Merge newID ext inputParents = Inr r"
  shows "Merge_parents [r] = Merge_parents inputParents"
proof -
  have lo: "layersOnly (Merge_parents inputParents)"
    using assms(1) by (rule Merge_parents_layersOnly)
  consider (empty) "Merge_parents inputParents = []"
    | (one) x where "Merge_parents inputParents = [x]"
    | (more) "length (Merge_parents inputParents) > 1"
  proof (cases "Merge_parents inputParents")
    case Nil
    then show ?thesis using that(1) by simp
  next
    case (Cons x xs)
    then show ?thesis using that(2)[of x] that(3) by (cases xs) simp_all
  qed
  then show ?thesis
  proof cases
    case empty
    with assms(2) show ?thesis
      by (auto simp: cacheManager_Merge_def Merge_parents_Cons Merge_parents_Nil)
  next
    case (one x)
    with assms(2) have "r = Some x"
      by (auto simp: cacheManager_Merge_def)
    moreover from lo one have "kind x = Layer \<or> kind x = BaseLayer"
      by (simp add: layersOnly_def)
    ultimately show ?thesis
      using one by (auto simp: Merge_parents_Cons Merge_parents_Nil)
  next
    case more
    then have "Merge_parents inputParents \<noteq> []" "length (Merge_parents inputParents) \<noteq> 1"
      by auto
    with assms(2) have "r = Some (CacheRecord newID None (Merge_parents inputParents) None)"
      by (auto simp: cacheManager_Merge_def Let_def split: option.splits)
    then show ?thesis
      using more by (auto simp: Merge_parents_Cons Merge_parents_Nil kind_def)
  qed
qed

lemma Merge_flattening_law:
  assumes "flatInput a" and "flatInput b"
    and "cacheManager_Merge newID' ext' [a, b] = Inr ab"
  shows "cacheManager_Merge newID ext [ab, c] = cacheManager_Merge newID ext [a, b, c]"
proof -
  have "Merge_parents [ab] = Merge_parents [a, b]"
    using assms by (intro Merge_parents_of_result) simp_all
  then have "Merge_parents ([ab] @ [c]) = Merge_parents ([a, b] @ [c])"
    by (simp only: Merge_parents_append)
  then show ?thesis
    by (simp add: cacheManager_Merge_def)
qed

lemma cacheManager_Merge_cases:
  "cacheManager_Merge newID ext inputParents =
     (case Merge_parents inputParents of
        [] \<Rightarrow> Inr None
      | [r] \<Rightarrow> Inr (Some r)
      | r # r' # rs \<Rightarrow>
          (case ext of
             Some err \<Rightarrow> Inl err
           | None \<Rightarrow> Inr (Some (CacheRecord newID None (Merge_parents inputParents) None))))"
  by (auto simp: cacheManager_Merge_def Let_def split: list.splits)

text \<open>
  Claim C1. \<^verbatim>\<open>Merge\<close> on inputs none of which is a record of kind \<^verbatim>\<open>Diff\<close>: the manager of this
  source creates records in \<^verbatim>\<open>New\<close>, \<^verbatim>\<open>GetByBlob\<close>, \<^verbatim>\<open>commit\<close>, \<^verbatim>\<open>getRecord\<close> and \<^verbatim>\<open>Merge\<close>, with a layer
  parent or merge parents only, and neither stores nor loads \<^verbatim>\<open>diffParents\<close>, so that every ref it
  can be handed is a layer, a base layer or a merge. With nil inputs dropped and every input merge
  record replaced by its own merge parents (\<open>flattened_parents\<close>): an empty list gives nil; a list
  of one ref gives that ref; a longer list gives the error of a collaborator, or else a new record
  whose merge parents are the flattened list. When the merge parents of the input merge records
  are not merge records, those of the new record are not either (merge records are never nested
  directly); and if \<open>ab\<close> is what \<^verbatim>\<open>Merge\<close> returns for \<open>[a, b]\<close>, then merging \<open>[ab, c]\<close> gives what
  merging \<open>[a, b, c]\<close> gives, the same merge parents in particular.
\<close>

theorem Merge_flattens_parents:
  assumes "\<forall>p. Some p \<in> set inputParents \<longrightarrow> kind p \<noteq> Diff"
  shows "(flattened_parents inputParents = [] \<longrightarrow>
            cacheManager_Merge newID ext inputParents = Inr None)
       \<and> (\<forall>r. flattened_parents inputParents = [r] \<longrightarrow>
            cacheManager_Merge newID ext inputParents = Inr (Some r))
       \<and> (1 < length (flattened_parents inputParents) \<longrightarrow>
            cacheManager_Merge newID ext inputParents =
              (case ext of
                 Some err \<Rightarrow> Inl err
               | None \<Rightarrow> Inr (Some (CacheRecord newID None (flattened_parents inputParents) None))))
       \<and> (list_all flatInput inputParents \<longrightarrow>
            (\<forall>r. cacheManager_Merge newID ext inputParents = Inr (Some r) \<and> kind r = Merge \<longrightarrow>
                 list_all (\<lambda>p. kind p \<noteq> Merge) (mergeParents r)))
       \<and> (flatInput a \<and> flatInput b \<and> cacheManager_Merge newID' ext' [a, b] = Inr ab \<longrightarrow>
            cacheManager_Merge newID ext [ab, c] = cacheManager_Merge newID ext [a, b, c])"
proof (intro conjI allI impI)
  note fl = Merge_parents_flattened[OF assms]
  show "cacheManager_Merge newID ext inputParents = Inr None"
    if "flattened_parents inputParents = []"
    using that fl by (simp add: cacheManager_Merge_cases)
  show "cacheManager_Merge newID ext inputParents = Inr (Some r)"
    if "flattened_parents inputParents = [r]" for r
    using that fl by (simp add: cacheManager_Merge_cases)
  show "cacheManager_Merge newID ext inputParents =
              (case ext of
                 Some err \<Rightarrow> Inl err
               | None \<Rightarrow> Inr (Some (CacheRecord newID None (flattened_parents inputParents) None)))"
    if long: "1 < length (flattened_parents inputParents)"
  proof -
    obtain r xs where 1: "flattened_parents inputParents = r # xs"
      using long by (cases "flattened_parents inputParents") auto
    then obtain r' rs where "xs = r' # rs"
      using long by (cases xs) auto
    then have "Merge_parents inputParents = r # r' # rs"
      using 1 fl by simp
    then show ?thesis
      unfolding cacheManager_Merge_cases fl[symmetric] by simp
  qed
  show "list_all (\<lambda>p. kind p \<noteq> Merge) (mergeParents r)"
    if "list_all flatInput inputParents"
      and "cacheManager_Merge newID ext inputParents = Inr (Some r) \<and> kind r = Merge" for r
  proof -
    have "layersOnly (mergeParents r)"
      using Merge_result_not_nested[OF that(1)] that(2) by blast
    then show ?thesis
      unfolding layersOnly_def by (rule list.pred_mono_strong) auto
  qed
  show "cacheManager_Merge newID ext [ab, c] = cacheManager_Merge newID ext [a, b, c]"
    if "flatInput a \<and> flatInput b \<and> cacheManager_Merge newID' ext' [a, b] = Inr ab"
    using that by (intro Merge_flattening_law[of a b newID' ext']) simp_all
qed

text \<open>
  The base layers \<open>a\<close> and \<open>c\<close>, the layer \<open>b\<close> on \<open>a\<close>, and their merges.
\<close>

definition example_a :: cacheRecord where
  "example_a = CacheRecord ''a'' None [] None"

definition example_b :: cacheRecord where
  "example_b = CacheRecord ''b'' (Some example_a) [] None"

definition example_c :: cacheRecord where
  "example_c = CacheRecord ''c'' None [] None"

text \<open>
  The theorem of claim C1 at inputs with nil entries and a merge record among them.
\<close>

theorem Merge_flattens_parents_witness:
  "cacheManager_Merge ''n'' None
      [Some (CacheRecord ''m'' None [example_a, example_b] None), None, Some example_c]
     = Inr (Some (CacheRecord ''n'' None [example_a, example_b, example_c] None))
   \<and> cacheManager_Merge ''n'' None [None, Some example_c, None] = Inr (Some example_c)
   \<and> cacheManager_Merge ''n'' None [None, None] = Inr None
   \<and> cacheManager_Merge ''n'' None
        [Some (CacheRecord ''m'' None [example_a, example_b] None), Some example_c]
       = cacheManager_Merge ''n'' None [Some example_a, Some example_b, Some example_c]"
proof -
  have k: "kind example_a = BaseLayer" "kind example_b = Layer" "kind example_c = BaseLayer"
    "kind (CacheRecord ''m'' None [example_a, example_b] None) = Merge"
    by (simp_all add: kind_def example_a_def example_b_def example_c_def)
  have 1: "\<forall>p. Some p \<in> set [Some (CacheRecord ''m'' None [example_a, example_b] None), None, Some example_c]
             \<longrightarrow> kind p \<noteq> Diff"
    using k by auto
  have 2: "\<forall>p. Some p \<in> set [None, Some example_c, None] \<longrightarrow> kind p \<noteq> Diff"
    using k by auto
  have 3: "\<forall>p. Some p \<in> set [None, None :: cacheRecord option] \<longrightarrow> kind p \<noteq> Diff"
    by auto
  have f1: "flattened_parents [Some (CacheRecord ''m'' None [example_a, example_b] None), None, Some example_c]
              = [example_a, example_b, example_c]"
    using k by (simp add: flattened_parents_def)
  have f2: "flattened_parents [None, Some example_c, None] = [example_c]"
    using k by (simp add: flattened_parents_def)
  have f3: "flattened_parents [None, None] = []"
    by (simp add: flattened_parents_def)
  have ab: "cacheManager_Merge ''m'' None [Some example_a, Some example_b]
              = Inr (Some (CacheRecord ''m'' None [example_a, example_b] None))"
    using k by (simp add: cacheManager_Merge_cases Merge_parents_Cons Merge_parents_Nil)
  have fa: "flatInput (Some example_a)" "flatInput (Some example_b)"
    using k by (simp_all add: flatInput_def)
  note t1 = Merge_flattens_parents[OF 1, of "''n''" None, THEN conjunct2, THEN conjunct2, THEN conjunct1]
  note t2 = Merge_flattens_parents[OF 2, of "''n''" None, THEN conjunct2, THEN conjunct1]
  note t3 = Merge_flattens_parents[OF 3, of "''n''" None, THEN conjunct1]
  note t4 = Merge_flattens_parents[OF 3, of "''n''" None "Some example_a" "Some example_b" "''m''" None
      "Some (CacheRecord ''m'' None [example_a, example_b] None)" "Some example_c",
      THEN conjunct2, THEN conjunct2, THEN conjunct2, THEN conjunct2]
  show ?thesis
    using t1 t2 t3 t4 f1 f2 f3 ab fa by simp
qed


section \<open>Lazy records and the provider check of getRecord\<close>

text \<open>
  The metadata of a record (\<^verbatim>\<open>*cacheMetadata\<close>), read through \<^verbatim>\<open>getBlob\<close>,
  \<^verbatim>\<open>getBlobOnly\<close> and \<^verbatim>\<open>getSnapshotID\<close>: the fields the functions below read. An empty
  \<open>blob\<close> is the empty digest.
\<close>

record cacheMetadata =
  blob :: string
  blobOnly :: bool
  snapshotID :: string

text \<open>
  The collaborators of the manager, as far as the functions below call them. The
  metadata store maps a record id to its metadata. \<^verbatim>\<open>ContentStore.Info\<close> answers with
  the blob's info or with an error, \<open>errdefs_ErrNotFound\<close> when the blob is absent. The
  snapshotter is the map of the snapshots it holds to their labels; \<^verbatim>\<open>Stat\<close> of a key
  it does not hold fails (the callers below only test whether \<^verbatim>\<open>Stat\<close> succeeded).
\<close>

record snapshots_Info =
  Labels :: "string \<rightharpoonup> string"

record content_Info =
  Size :: int

record cacheManager =
  metadata :: "string \<Rightarrow> cacheMetadata"
  ContentStore_Info :: "string \<Rightarrow> error + content_Info"
  snapshots :: "string \<rightharpoonup> snapshots_Info"

definition getBlob :: "'a cacheManager_scheme \<Rightarrow> cacheRecord \<Rightarrow> string" where
  "getBlob cm cr = blob (metadata cm (ID cr))"

definition getBlobOnly :: "'a cacheManager_scheme \<Rightarrow> cacheRecord \<Rightarrow> bool" where
  "getBlobOnly cm cr = blobOnly (metadata cm (ID cr))"

definition getSnapshotID :: "'a cacheManager_scheme \<Rightarrow> cacheRecord \<Rightarrow> string" where
  "getSnapshotID cm cr = snapshotID (metadata cm (ID cr))"

definition Snapshotter_Stat ::
  "'a cacheManager_scheme \<Rightarrow> string \<Rightarrow> error + snapshots_Info" where
  "Snapshotter_Stat cm key =
     (case snapshots cm key of None \<Rightarrow> Inl errdefs_ErrNotFound | Some info \<Rightarrow> Inr info)"

text \<open>\<^verbatim>\<open>func (cr *cacheRecord) isLazy(ctx) (bool, error)\<close>.\<close>

definition isLazy :: "'a cacheManager_scheme \<Rightarrow> cacheRecord \<Rightarrow> error + bool" where
  "isLazy cm cr =
     (if \<not> getBlobOnly cm cr then Inr False
      else let dgst = getBlob cm cr in
        if dgst = [] then Inr False
        else (case ContentStore_Info cm dgst of
                Inl err \<Rightarrow> if err = errdefs_ErrNotFound then Inr True else Inl err
              | Inr _ \<Rightarrow>
                  (case Snapshotter_Stat cm (getSnapshotID cm cr) of
                     Inr info \<Rightarrow>
                       if Labels info ''containerd.io/snapshot/remote'' \<noteq> None
                       then Inr True else Inr False
                   | Inl _ \<Rightarrow> Inr False)))"

text \<open>
  The records \<^verbatim>\<open>walkAncestors\<close> pushes after a visit of \<open>cur\<close>: the \<^verbatim>\<open>switch cur.kind()\<close>
  of its loop.
\<close>

definition walkParents :: "cacheRecord \<Rightarrow> cacheRecord list" where
  "walkParents cur =
     (case kind cur of
        Layer \<Rightarrow> (case layerParent cur of None \<Rightarrow> [] | Some p \<Rightarrow> [p])
      | Merge \<Rightarrow> mergeParents cur
      | Diff \<Rightarrow>
          (case diffParents cur of
             None \<Rightarrow> []
           | Some dp \<Rightarrow>
               (case lower dp of None \<Rightarrow> [] | Some lo \<Rightarrow> [lo]) @
               (case upper dp of None \<Rightarrow> [] | Some up \<Rightarrow> [up]))
      | BaseLayer \<Rightarrow> [])"

lemma size_list_sum: "sum_list (map size xs) \<le> size_list size xs"
  by (induction xs) auto

lemma size_walkParents: "sum_list (map size (walkParents cur)) < size cur"
proof (cases cur)
  case (CacheRecord i lp mps dps)
  show ?thesis
  proof (cases "kind cur")
    case Merge
    then show ?thesis using CacheRecord size_list_sum[of mps]
      by (simp add: walkParents_def)
  next
    case Diff
    then show ?thesis using CacheRecord
      by (cases dps; simp add: walkParents_def split: option.splits)
         (rename_tac dp, case_tac dp, auto split: option.splits)
  next
    case Layer
    then show ?thesis using CacheRecord
      by (auto simp add: walkParents_def split: option.splits)
  next
    case BaseLayer
    then show ?thesis using CacheRecord
      by (simp add: walkParents_def)
  qed
qed

lemma size_pop:
  assumes "curs \<noteq> []"
  shows "sum_list (map size (butlast curs)) < sum_list (map size curs)"
    and "sum_list (map size (butlast curs)) + sum_list (map size (walkParents (last curs)))
           < sum_list (map size curs)"
proof -
  from assms have c: "curs = butlast curs @ [last curs]" by simp
  have "sum_list (map size curs) = sum_list (map size (butlast curs)) + size (last curs)"
    by (subst c) simp
  then show "sum_list (map size (butlast curs)) < sum_list (map size curs)"
    and "sum_list (map size (butlast curs)) + sum_list (map size (walkParents (last curs)))
           < sum_list (map size curs)"
    using size_walkParents[of "last curs"] by simp_all
qed

text \<open>
  \<^verbatim>\<open>func (cr *cacheRecord) walkAncestors(f func(*cacheRecord) error) error\<close>: the loop
  over the stack \<^verbatim>\<open>curs\<close>, which starts as \<open>[cr]\<close>. The callback reads and writes
  variables of its caller: it takes their state and returns its error with the new
  state. The loop pops the last element, calls \<open>f\<close>, goes on to the next element when
  \<open>f\<close> answers \<open>errSkipWalk\<close>, returns any other error, and pushes the parents otherwise.
\<close>

function walkAncestors ::
  "(cacheRecord \<Rightarrow> 's \<Rightarrow> error option \<times> 's) \<Rightarrow> cacheRecord list \<Rightarrow> 's \<Rightarrow> error option \<times> 's" where
  "walkAncestors f curs s =
     (if length curs > 0 then
        (let cur = last curs; curs' = butlast curs in
         case f cur s of
           (Some err, s') \<Rightarrow>
              if err = errSkipWalk then walkAncestors f curs' s' else (Some err, s')
         | (None, s') \<Rightarrow> walkAncestors f (curs' @ walkParents cur) s')
      else (None, s))"
  by pat_completeness auto

termination walkAncestors
  by (relation "measure (\<lambda>(f, curs, s). sum_list (map size curs))")
     (auto simp: size_pop)

declare walkAncestors.simps [simp del]

text \<open>
  \<^verbatim>\<open>walkUniqueAncestors\<close>: the memo is a set of \<^verbatim>\<open>*cacheRecord\<close> pointers, here the set of
  the records visited.
\<close>

definition walkUnique_visit ::
  "(cacheRecord \<Rightarrow> 's \<Rightarrow> error option \<times> 's) \<Rightarrow>
   cacheRecord \<Rightarrow> cacheRecord set \<times> 's \<Rightarrow> error option \<times> cacheRecord set \<times> 's" where
  "walkUnique_visit f cr = (\<lambda>(memo, s).
     if cr \<in> memo then (Some errSkipWalk, (memo, s))
     else (let (err, s') = f cr s in (err, (insert cr memo, s'))))"

definition walkUniqueAncestors ::
  "(cacheRecord \<Rightarrow> 's \<Rightarrow> error option \<times> 's) \<Rightarrow> cacheRecord \<Rightarrow> 's \<Rightarrow> error option \<times> 's" where
  "walkUniqueAncestors f cr s =
     (let (err, (memo, s')) = walkAncestors (walkUnique_visit f) [cr] ({}, s)
      in (err, s'))"

text \<open>
  The closure \<^verbatim>\<open>checkLazyProviders\<close> of \<^verbatim>\<open>getRecord\<close>. \<open>dhs\<close> is
  \<^verbatim>\<open>descHandlersOf(opts...)\<close>, a map from digest to handler; \<open>missing\<close> is the slice the
  function literal handed to \<^verbatim>\<open>walkUniqueAncestors\<close> appends to, and
  \<open>checkLazy_visit\<close> is that function literal.
\<close>

definition checkLazy_visit ::
  "'a cacheManager_scheme \<Rightarrow> (string \<rightharpoonup> 'h) \<Rightarrow>
   cacheRecord \<Rightarrow> string list \<Rightarrow> error option \<times> string list" where
  "checkLazy_visit cm dhs cr missing =
     (let blob' = getBlob cm cr in
      case isLazy cm cr of
        Inl err \<Rightarrow> (Some err, missing)
      | Inr lazy \<Rightarrow>
          if lazy \<and> dhs blob' = None then (None, missing @ [blob'])
          else (None, missing))"

definition checkLazyProviders ::
  "'a cacheManager_scheme \<Rightarrow> (string \<rightharpoonup> 'h) \<Rightarrow> cacheRecord \<Rightarrow> error option" where
  "checkLazyProviders cm dhs rec =
     (let (err, missing) = walkUniqueAncestors (checkLazy_visit cm dhs) rec []
      in case err of
           Some err \<Rightarrow> Some err
         | None \<Rightarrow>
             if length missing > 0 then Some (NeedsRemoteProvidersError missing) else None)"

text \<open>
  \<^verbatim>\<open>getRecord\<close>, the branch for an id that is in \<^verbatim>\<open>cm.records\<close>, applied to the record
  \<open>rec\<close> found there; \<open>dead\<close> is the result of \<^verbatim>\<open>rec.isDead()\<close>. (For an id that is not
  resident the source builds the record from the metadata store and runs the same
  closure on it before it returns it.)
\<close>

definition getRecord ::
  "'a cacheManager_scheme \<Rightarrow> (string \<rightharpoonup> 'h) \<Rightarrow> bool \<Rightarrow> cacheRecord \<Rightarrow> error + cacheRecord" where
  "getRecord cm dhs dead rec =
     (if dead then Inl errNotFound
      else (case checkLazyProviders cm dhs rec of
              Some err \<Rightarrow> Inl err
            | None \<Rightarrow> Inr rec))"

subsection \<open>The records a walk visits\<close>











subsection \<open>Claims C5 and C10\<close>



text \<open>
  An example manager: every record is \<^verbatim>\<open>blobOnly\<close> with the blob \<open>sha256:\<close> followed by
  its id, the content store holds the blob \<open>sha256:b\<close> only, and the snapshotter holds
  no snapshot. \<open>example_layer\<close> is the layer \<open>b\<close> on the base layer \<open>a\<close>.
\<close>

definition example_cm :: cacheManager where
  "example_cm =
     \<lparr>metadata = (\<lambda>i. \<lparr>blob = ''sha256:'' @ i, blobOnly = True, snapshotID = ''snap-'' @ i\<rparr>),
      ContentStore_Info =
        (\<lambda>d. if d = ''sha256:b'' then Inr \<lparr>Size = 1\<rparr> else Inl errdefs_ErrNotFound),
      snapshots = Map.empty\<rparr>"







lemma isLazy_empty_blob: "getBlob cm cr = [] \<Longrightarrow> isLazy cm cr = Inr False"
  by (simp add: isLazy_def Let_def)

lemma checkLazy_visit_cong:
  assumes "\<And>d. d \<noteq> [] \<Longrightarrow> (dhs d = None) = (dhs' d = None)"
  shows "checkLazy_visit cm dhs = checkLazy_visit cm dhs'"
proof (intro ext)
  fix cr missing
  show "checkLazy_visit cm dhs cr missing = checkLazy_visit cm dhs' cr missing"
  proof (cases "getBlob cm cr = []")
    case True
    then show ?thesis
      by (simp add: checkLazy_visit_def isLazy_empty_blob)
  next
    case False
    then show ?thesis using assms[OF False]
      by (simp add: checkLazy_visit_def Let_def split: sum.splits)
  qed
qed

text \<open>
  Claim C10. A record whose blob digest is empty is never lazy, whatever the
  snapshotter holds and whatever \<^verbatim>\<open>blobOnly\<close> says; the visit of such a record by
  \<^verbatim>\<open>checkLazyProviders\<close> adds nothing to the missing digests; and the result of
  \<^verbatim>\<open>getRecord\<close> does not depend on whether \<open>dhs\<close> has a handler for the empty digest.
\<close>

theorem empty_blob_never_needs_provider:
  "getBlob cm cr = [] \<Longrightarrow>
     isLazy (cm\<lparr>snapshots := sn\<rparr>) cr = Inr False \<and>
     checkLazy_visit cm dhs cr missing = (None, missing) \<and>
     getRecord cm (dhs([] := h)) dead rec = getRecord cm dhs dead rec"
proof -
  assume e: "getBlob cm cr = []"
  have "getBlob (cm\<lparr>snapshots := sn\<rparr>) cr = []"
    using e by (simp add: getBlob_def)
  then have 1: "isLazy (cm\<lparr>snapshots := sn\<rparr>) cr = Inr False"
    by (rule isLazy_empty_blob)
  have 2: "checkLazy_visit cm dhs cr missing = (None, missing)"
    using e by (simp add: checkLazy_visit_def isLazy_empty_blob)
  have "checkLazy_visit cm (dhs([] := h)) = checkLazy_visit cm dhs"
    by (rule checkLazy_visit_cong) simp
  then have 3: "getRecord cm (dhs([] := h)) dead rec = getRecord cm dhs dead rec"
    by (simp add: getRecord_def checkLazyProviders_def)
  from 1 2 3 show ?thesis by blast
qed

theorem empty_blob_never_needs_provider_witness:
  "isLazy (example_cm\<lparr>metadata := (\<lambda>i. \<lparr>blob = [], blobOnly = True, snapshotID = ''snap''\<rparr>),
                      snapshots := Map.empty\<rparr>)
      (CacheRecord ''m'' None [] None) = Inr False \<and>
   checkLazy_visit
      (example_cm\<lparr>metadata := (\<lambda>i. \<lparr>blob = [], blobOnly = True, snapshotID = ''snap''\<rparr>)\<rparr>)
      (Map.empty :: string \<rightharpoonup> unit) (CacheRecord ''m'' None [] None) [] = (None, [])"
  using empty_blob_never_needs_provider[where
      cm = "example_cm\<lparr>metadata := (\<lambda>i. \<lparr>blob = [], blobOnly = True, snapshotID = ''snap''\<rparr>)\<rparr>"
      and cr = "CacheRecord ''m'' None [] None" and sn = Map.empty
      and dhs = "Map.empty :: string \<rightharpoonup> unit" and missing = "[]"
      and h = None and dead = False and rec = "CacheRecord ''m'' None [] None"]
  by (simp add: getBlob_def)

section \<open>The applier of the merge snapshotter (snapshot/diffapply_unix.go)\<close>

text \<open>
  The file type bits of \<^verbatim>\<open>Stat_t.Mode\<close>, a \<^verbatim>\<open>uint32\<close>: the constants of
  \<^verbatim>\<open>golang.org/x/sys/unix\<close> on Linux (octal 0170000, 0140000, 0120000, 0100000,
  060000, 040000, 020000, 010000).
\<close>

definition S_IFMT :: "32 word" where
  "S_IFMT = 0xf000"

definition S_IFSOCK :: "32 word" where
  "S_IFSOCK = 0xc000"

definition S_IFLNK :: "32 word" where
  "S_IFLNK = 0xa000"

definition S_IFREG :: "32 word" where
  "S_IFREG = 0x8000"

definition S_IFBLK :: "32 word" where
  "S_IFBLK = 0x6000"

definition S_IFDIR :: "32 word" where
  "S_IFDIR = 0x4000"

definition S_IFCHR :: "32 word" where
  "S_IFCHR = 0x2000"

definition S_IFIFO :: "32 word" where
  "S_IFIFO = 0x1000"

text \<open>\<^verbatim>\<open>unix.Mkdev(major, minor)\<close> of the same package.\<close>

definition Mkdev :: "32 word \<Rightarrow> 32 word \<Rightarrow> 64 word" where
  "Mkdev major minor =
     (push_bit 32 (ucast major AND 0xfffff000)) OR
     (push_bit 8 (ucast major AND 0x00000fff)) OR
     (push_bit 12 (ucast minor AND 0xffffff00)) OR
     (ucast minor AND 0x000000ff)"

text \<open>
  \<^verbatim>\<open>fs.ChangeKind\<close> of \<^verbatim>\<open>containerd/continuity\<close>, the \<^verbatim>\<open>change\<close> and \<^verbatim>\<open>changeApply\<close>
  structs (the field \<^verbatim>\<open>kind\<close> is \<open>ckind\<close> here, \<open>kind\<close> being the kind of a cache
  record), the fields of \<^verbatim>\<open>syscall.Stat_t\<close> and of \<^verbatim>\<open>applier\<close> that \<^verbatim>\<open>applyDelete\<close> reads.
\<close>

datatype ChangeKind =
  ChangeKindUnmodified | ChangeKindAdd | ChangeKindModify | ChangeKindDelete

record Stat_t =
  Mode :: "32 word"
  Rdev :: "64 word"

record change =
  ckind :: ChangeKind
  subpath :: string
  srcpath :: string
  srcStat :: "Stat_t option"
  linkSubpath :: string

record changeApply = change +
  dstpath :: string
  dstStat :: "Stat_t option"

record applier =
  root :: string
  lowerdirs :: "string list"
  createWhiteoutDelete :: bool

text \<open>
  The file system as \<^verbatim>\<open>applyDelete\<close> sees it: the paths that exist with their stat, and
  the paths on which \<^verbatim>\<open>os.Lstat\<close> or \<^verbatim>\<open>os.RemoveAll\<close> fail with an error of their
  own. \<^verbatim>\<open>os.Lstat\<close> of a path that does not exist fails with \<open>ENOENT\<close>.
  \<^verbatim>\<open>os.RemoveAll\<close> removes the path and everything below it.
\<close>

datatype errno = ENOENT | ENOTDIR | EACCES | EIO

datatype apply_error =
    RemoveFailed errno
  | JoinFailed
  | LstatFailed errno
  | NilSrcStat

record filesys =
  files :: "string \<rightharpoonup> Stat_t"
  lstat_fault :: "string \<rightharpoonup> errno"
  remove_fault :: "string \<rightharpoonup> errno"

definition Lstat :: "filesys \<Rightarrow> string \<Rightarrow> errno + Stat_t" where
  "Lstat fs path =
     (case lstat_fault fs path of
        Some e \<Rightarrow> Inl e
      | None \<Rightarrow> (case files fs path of None \<Rightarrow> Inl ENOENT | Some st \<Rightarrow> Inr st))"

definition below :: "string \<Rightarrow> string \<Rightarrow> bool" where
  "below path q = (q = path \<or> take (length path + 1) q = path @ ''/'')"

definition RemoveAll :: "filesys \<Rightarrow> string \<Rightarrow> errno + filesys" where
  "RemoveAll fs path =
     (case remove_fault fs path of
        Some e \<Rightarrow> Inl e
      | None \<Rightarrow> Inr (fs\<lparr>files := (\<lambda>q. if below path q then None else files fs q)\<rparr>))"

text \<open>
  The loop of \<^verbatim>\<open>applyDelete\<close> over \<^verbatim>\<open>a.lowerdirs\<close>, which sets \<^verbatim>\<open>foundLower\<close>.
  \<^verbatim>\<open>safeJoin\<close> resolves the path below a root through \<^verbatim>\<open>fs.RootPath\<close> of
  \<^verbatim>\<open>containerd/continuity\<close>; it is a parameter, \<open>None\<close> being its error.
\<close>

fun foundLower ::
  "(string \<Rightarrow> string \<Rightarrow> string option) \<Rightarrow> filesys \<Rightarrow> string \<Rightarrow> string list \<Rightarrow> apply_error + bool" where
  "foundLower safeJoin fs sub [] = Inr False"
| "foundLower safeJoin fs sub (lowerdir # rest) =
     (case safeJoin lowerdir sub of
        None \<Rightarrow> Inl JoinFailed
      | Some lowerpath \<Rightarrow>
          (case Lstat fs lowerpath of
             Inr _ \<Rightarrow> Inr True
           | Inl e \<Rightarrow>
               if e \<noteq> ENOENT \<and> e \<noteq> ENOTDIR then Inl (LstatFailed e)
               else foundLower safeJoin fs sub rest))"

text \<open>
  \<^verbatim>\<open>func (a *applier) applyDelete(ctx, ca *changeApply) (bool, error)\<close>. The source
  mutates \<open>ca\<close> and the file system: the result carries both. In Go \<^verbatim>\<open>&\<close> binds
  tighter than \<^verbatim>\<open>!=\<close>, so the test of \<^verbatim>\<open>overwrite\<close> compares
  \<^verbatim>\<open>srcStat.Mode & dstStat.Mode & S_IFMT\<close> with \<^verbatim>\<open>S_IFDIR\<close>; it dereferences
  \<^verbatim>\<open>ca.srcStat\<close>, which panics when that is nil (\<open>NilSrcStat\<close>).
\<close>

definition applyDelete ::
  "(string \<Rightarrow> string \<Rightarrow> string option) \<Rightarrow> applier \<Rightarrow> changeApply \<Rightarrow> filesys \<Rightarrow>
   apply_error + (bool \<times> changeApply \<times> filesys)" where
  "applyDelete safeJoin a ca fs =
     (let deleteOnly = (ckind ca = ChangeKindDelete) in
      if \<not> deleteOnly \<and> dstStat ca \<noteq> None \<and> srcStat ca = None then Inl NilSrcStat
      else
      let overwrite = (\<not> deleteOnly \<and> dstStat ca \<noteq> None \<and>
             Mode (the (srcStat ca)) AND Mode (the (dstStat ca)) AND S_IFMT \<noteq> S_IFDIR) in
      if \<not> deleteOnly \<and> \<not> overwrite then Inr (False, ca, fs)
      else (case RemoveAll fs (dstpath ca) of
              Inl e \<Rightarrow> Inl (RemoveFailed e)
            | Inr fs' \<Rightarrow>
                (let ca' = ca\<lparr>dstStat := None\<rparr> in
                 if deleteOnly \<and> createWhiteoutDelete a then
                   (case foundLower safeJoin fs' (subpath ca') (lowerdirs a) of
                      Inl e \<Rightarrow> Inl e
                    | Inr found \<Rightarrow>
                        if found then
                          (let ca'' = ca'\<lparr>ckind := ChangeKindAdd\<rparr> in
                           if srcStat ca'' = None then
                             Inr (False,
                                  ca''\<lparr>srcStat := Some \<lparr>Mode = S_IFCHR, Rdev = Mkdev 0 0\<rparr>,
                                       srcpath := []\<rparr>, fs')
                           else Inr (False, ca'', fs'))
                        else Inr (deleteOnly, ca', fs'))
                 else Inr (deleteOnly, ca', fs'))))"

text \<open>A stat is a directory's when its file type bits are \<^verbatim>\<open>S_IFDIR\<close>.\<close>

definition isDir :: "Stat_t \<Rightarrow> bool" where
  "isDir st = (Mode st AND S_IFMT = S_IFDIR)"

lemma Mkdev_0: "Mkdev 0 0 = 0"
  by (simp add: Mkdev_def)

text \<open>
  The first half of claim C8 holds. A delete removes \<open>dstpath\<close> and everything below
  it; on an overlay destination (\<^verbatim>\<open>createWhiteoutDelete\<close>) the change goes on as an
  \<^verbatim>\<open>Add\<close>, of a char device 0/0 when the change carries no stat, exactly when a
  lowerdir holds the subpath, and the delete is done otherwise.
\<close>

lemma foundLower_iff:
  assumes "\<forall>l \<in> set ls. \<exists>p. safeJoin l sub = Some p \<and> lstat_fault fs p = None"
  shows "foundLower safeJoin fs sub ls =
           Inr (\<exists>l \<in> set ls. files fs (the (safeJoin l sub)) \<noteq> None)"
  using assms
  by (induction ls) (auto simp: Lstat_def split: option.splits)

lemma applyDelete_Delete:
  assumes "ckind ca = ChangeKindDelete"
    and "RemoveAll fs (dstpath ca) = Inr fs'"
    and "foundLower safeJoin fs' (subpath ca) (lowerdirs a) = Inr found"
  shows "applyDelete safeJoin a ca fs =
           (if createWhiteoutDelete a \<and> found then
              Inr (False,
                   (if srcStat ca = None
                    then ca\<lparr>ckind := ChangeKindAdd, srcpath := [],
                            srcStat := Some \<lparr>Mode = S_IFCHR, Rdev = 0\<rparr>, dstStat := None\<rparr>
                    else ca\<lparr>ckind := ChangeKindAdd, dstStat := None\<rparr>), fs')
            else Inr (True, ca\<lparr>dstStat := None\<rparr>, fs'))"
    and "\<forall>q. below (dstpath ca) q \<longrightarrow> files fs' q = None"
proof -
  show "applyDelete safeJoin a ca fs =
           (if createWhiteoutDelete a \<and> found then
              Inr (False,
                   (if srcStat ca = None
                    then ca\<lparr>ckind := ChangeKindAdd, srcpath := [],
                            srcStat := Some \<lparr>Mode = S_IFCHR, Rdev = 0\<rparr>, dstStat := None\<rparr>
                    else ca\<lparr>ckind := ChangeKindAdd, dstStat := None\<rparr>), fs')
            else Inr (True, ca\<lparr>dstStat := None\<rparr>, fs'))"
    using assms by (simp add: applyDelete_def Let_def Mkdev_0)
  show "\<forall>q. below (dstpath ca) q \<longrightarrow> files fs' q = None"
    using assms(2) by (auto simp: RemoveAll_def split: option.splits)
qed

text \<open>
  What the code does for a change that is not a delete onto an existing destination:
  it removes \<open>dstpath\<close> exactly when the bitwise and of the two modes and \<^verbatim>\<open>S_IFMT\<close>
  differs from \<^verbatim>\<open>S_IFDIR\<close>.
\<close>

lemma applyDelete_overwrite:
  assumes "ckind ca \<noteq> ChangeKindDelete"
    and "srcStat ca = Some src" and "dstStat ca = Some dst"
    and "RemoveAll fs (dstpath ca) = Inr fs'"
  shows "applyDelete safeJoin a ca fs =
           (if Mode src AND Mode dst AND S_IFMT \<noteq> S_IFDIR
            then Inr (False, ca\<lparr>dstStat := None\<rparr>, fs')
            else Inr (False, ca, fs))"
  using assms by (simp add: applyDelete_def Let_def)

text \<open>
  Claim C8. The second half of the claim: for a change that is not a delete, when
  the source and the existing destination are not both directories, \<open>dstpath\<close> is
  removed before the new content is applied; the comment of the source says the same
  (``Don't delete when both are dirs''). The code fails it: a \<^verbatim>\<open>Modify\<close> whose
  source is a directory (mode 040755) onto a destination that is a block device (mode
  060600) has \<^verbatim>\<open>src.Mode & dst.Mode & S_IFMT = S_IFDIR\<close>, the bits of \<^verbatim>\<open>S_IFDIR\<close>
  being among those of \<^verbatim>\<open>S_IFBLK\<close>, so \<^verbatim>\<open>applyDelete\<close> removes nothing and returns.
\<close>

theorem applyDelete_keeps_block_device_under_directory:
  "isDir \<lparr>Mode = S_IFDIR OR 0x1ed, Rdev = 0\<rparr> \<and>
   \<not> isDir \<lparr>Mode = S_IFBLK OR 0x180, Rdev = 0x801\<rparr> \<and>
   applyDelete safeJoin a
     \<lparr>ckind = ChangeKindModify, subpath = ''/x'', srcpath = ''/src/x'',
      srcStat = Some \<lparr>Mode = S_IFDIR OR 0x1ed, Rdev = 0\<rparr>, linkSubpath = [],
      dstpath = ''/dst/x'', dstStat = Some \<lparr>Mode = S_IFBLK OR 0x180, Rdev = 0x801\<rparr>\<rparr>
     \<lparr>files = [''/dst/x'' \<mapsto> \<lparr>Mode = S_IFBLK OR 0x180, Rdev = 0x801\<rparr>],
      lstat_fault = Map.empty, remove_fault = Map.empty\<rparr>
   = Inr (False,
     \<lparr>ckind = ChangeKindModify, subpath = ''/x'', srcpath = ''/src/x'',
      srcStat = Some \<lparr>Mode = S_IFDIR OR 0x1ed, Rdev = 0\<rparr>, linkSubpath = [],
      dstpath = ''/dst/x'', dstStat = Some \<lparr>Mode = S_IFBLK OR 0x180, Rdev = 0x801\<rparr>\<rparr>,
     \<lparr>files = [''/dst/x'' \<mapsto> \<lparr>Mode = S_IFBLK OR 0x180, Rdev = 0x801\<rparr>],
      lstat_fault = Map.empty, remove_fault = Map.empty\<rparr>)"
  by (simp add: applyDelete_def isDir_def S_IFMT_def S_IFDIR_def S_IFBLK_def)

section \<open>Materializing a merge or diff record\<close>

text \<open>
  \<^verbatim>\<open>snapshot.Diff\<close>: the keys of the lower and the upper snapshot, empty for none.
\<close>

record snapshot_Diff =
  Lower :: string
  Upper :: string




text \<open>
  \<^verbatim>\<open>func (sn *mergeSnapshotter) diffApply(ctx, dest, diffs...)\<close> (diffapply_unix.go). For
  each diff in order it stats the lower and the upper snapshot that are named, mounts
  them, builds a differ and hands every change of the differ to \<^verbatim>\<open>a.Apply\<close>; an error
  ends the loop. \<open>HandleChanges diff dest\<close> stands for the mounts, the differ (which
  rests on \<^verbatim>\<open>fs.Changes\<close> of \<^verbatim>\<open>containerd/continuity\<close>) and the applier's work on the
  destination \<open>dest\<close>; \<open>Flush\<close> for \<^verbatim>\<open>a.Flush\<close> and \<^verbatim>\<open>a.Usage\<close> after the loop.
\<close>

fun diffApply_loop ::
  "(snapshot_Diff \<Rightarrow> 'd \<Rightarrow> error + 'd) \<Rightarrow> 'a cacheManager_scheme \<Rightarrow> 'd \<Rightarrow>
   snapshot_Diff list \<Rightarrow> error + 'd" where
  "diffApply_loop HandleChanges cm dest [] = Inr dest"
| "diffApply_loop HandleChanges cm dest (diff # diffs) =
     (if Lower diff \<noteq> [] \<and> snapshots cm (Lower diff) = None then Inl errdefs_ErrNotFound
      else if Upper diff \<noteq> [] \<and> snapshots cm (Upper diff) = None then Inl errdefs_ErrNotFound
      else (case HandleChanges diff dest of
              Inl err \<Rightarrow> Inl err
            | Inr dest' \<Rightarrow> diffApply_loop HandleChanges cm dest' diffs))"

definition diffApply ::
  "(snapshot_Diff \<Rightarrow> 'd \<Rightarrow> error + 'd) \<Rightarrow> ('d \<Rightarrow> error + 'd) \<Rightarrow>
   'a cacheManager_scheme \<Rightarrow> 'd \<Rightarrow> snapshot_Diff list \<Rightarrow> error + 'd" where
  "diffApply HandleChanges Flush cm dest diffs =
     (case diffApply_loop HandleChanges cm dest diffs of
        Inl err \<Rightarrow> Inl err
      | Inr dest' \<Rightarrow> Flush dest')"












section \<open>Extract and unlazy (cache/refs.go)\<close>


text \<open>
  The source starts the \<^verbatim>\<open>unlazy\<close> of several records in an \<^verbatim>\<open>errgroup\<close> and waits
  for them; the first error cancels the rest. The model runs them one after another in
  the order in which \<^verbatim>\<open>eg.Go\<close> is called and stops at the first error.
\<close>

fun egWait :: "('a \<Rightarrow> 's \<Rightarrow> error option \<times> 's) \<Rightarrow> 'a list \<Rightarrow> 's \<Rightarrow> error option \<times> 's" where
  "egWait f [] s = (None, s)"
| "egWait f (x # xs) s =
     (case f x s of
        (Some err, s') \<Rightarrow> (Some err, s')
      | (None, s') \<Rightarrow> egWait f xs s')"

lemma egWait_cong [fundef_cong]:
  "xs = ys \<Longrightarrow> s = t \<Longrightarrow> (\<And>x u. x \<in> set ys \<Longrightarrow> f x u = g x u) \<Longrightarrow> egWait f xs s = egWait g ys t"
proof (induction ys arbitrary: xs s t)
  case Nil
  then show ?case by simp
next
  case (Cons y ys)
  then show ?case by (auto split: prod.splits option.splits)
qed




















section \<open>DiskUsage (cache/manager.go)\<close>

text \<open>
  \<^verbatim>\<open>cacheUsageInfo\<close>, with the fields the propagation of the reference counts reads
  and writes; \<^verbatim>\<open>refs\<close> is a Go \<^verbatim>\<open>int\<close> and may go below zero.
\<close>

record cacheUsageInfo =
  refs :: int
  parents :: "string list"
  doubleRef :: bool

text \<open>
  The record map of the manager as \<^verbatim>\<open>DiskUsage\<close> reads it: \<^verbatim>\<open>cm.records\<close> as the list of
  its entries in the order of the \<^verbatim>\<open>range\<close> loop (any order, for a Go map), and per
  record id the number of live handles \<^verbatim>\<open>len(cr.refs)\<close> and the ids of the twins
  \<^verbatim>\<open>cr.equalMutable\<close> and \<^verbatim>\<open>cr.equalImmutable\<close>, if any.
\<close>

record recordMap =
  records :: "(string \<times> cacheRecord) list"
  nrefs :: "string \<Rightarrow> nat"
  equalMutable :: "string \<rightharpoonup> string"
  equalImmutable :: "string \<rightharpoonup> string"

text \<open>
  The \<^verbatim>\<open>switch cr.kind()\<close> that fills \<^verbatim>\<open>c.parents\<close>: it has the cases \<^verbatim>\<open>Layer\<close> and
  \<^verbatim>\<open>Merge\<close> only.
\<close>

definition usageParents :: "cacheRecord \<Rightarrow> string list" where
  "usageParents cr =
     (case kind cr of
        Layer \<Rightarrow> (case layerParent cr of None \<Rightarrow> [] | Some p \<Rightarrow> [ID p])
      | Merge \<Rightarrow> map ID (mergeParents cr)
      | Diff \<Rightarrow> []
      | BaseLayer \<Rightarrow> [])"

text \<open>The test ``ignore duplicates that share data'' of the first loop.\<close>

definition sharesData :: "recordMap \<Rightarrow> string \<Rightarrow> bool" where
  "sharesData cm i =
     ((case equalImmutable cm i of None \<Rightarrow> False | Some im \<Rightarrow> nrefs cm im > 0) \<or>
      (equalMutable cm i \<noteq> None \<and> nrefs cm i = 0))"

text \<open>The first loop of \<^verbatim>\<open>DiskUsage\<close>: it builds the maps \<^verbatim>\<open>m\<close> and \<^verbatim>\<open>rescan\<close>.\<close>

definition DiskUsage_scan ::
  "recordMap \<Rightarrow> (string \<rightharpoonup> cacheUsageInfo) \<times> string set" where
  "DiskUsage_scan cm =
     fold (\<lambda>(i, cr) (m, rescan).
             if sharesData cm i then (m, rescan)
             else (m(i \<mapsto> \<lparr>refs = int (nrefs cm i), parents = usageParents cr,
                               doubleRef = (equalImmutable cm i \<noteq> None)\<rparr>),
                   insert i rescan))
          (records cm) (Map.empty, {})"

text \<open>
  The loop over \<^verbatim>\<open>v.parents\<close> of a record \<open>v\<close> with \<^verbatim>\<open>v.refs == 0\<close>: \<^verbatim>\<open>m[p].refs--\<close>, once
  more when \<^verbatim>\<open>v.doubleRef\<close>, and \<^verbatim>\<open>rescan[p] = struct{}{}\<close>. \<^verbatim>\<open>m[p]\<close> is a nil pointer
  for an id that is not in \<open>m\<close>; the dereference panics (\<open>None\<close>).
\<close>

fun decParents ::
  "(string \<rightharpoonup> cacheUsageInfo) \<Rightarrow> bool \<Rightarrow> string list \<Rightarrow> string set \<Rightarrow>
   ((string \<rightharpoonup> cacheUsageInfo) \<times> string set) option" where
  "decParents m dbl [] rescan = Some (m, rescan)"
| "decParents m dbl (p # ps) rescan =
     (case m p of
        None \<Rightarrow> None
      | Some c \<Rightarrow>
          decParents (m(p \<mapsto> c\<lparr>refs := (if dbl then refs c - 1 - 1 else refs c - 1)\<rparr>))
            dbl ps (insert p rescan))"

text \<open>
  The records that can still reach the test \<^verbatim>\<open>v.refs == 0\<close> with a true outcome: the
  measure of the loop below.
\<close>

definition live :: "(string \<rightharpoonup> cacheUsageInfo) \<Rightarrow> string set \<Rightarrow> string set" where
  "live m rescan =
     {x \<in> dom m. refs (the (m x)) > 0 \<or> (refs (the (m x)) = 0 \<and> x \<in> rescan)}"

lemma decParents_props:
  "decParents m dbl ps rescan = Some (m', rescan') \<Longrightarrow>
     dom m' = dom m \<and> rescan' = rescan \<union> set ps \<and>
     (\<forall>x. x \<notin> set ps \<longrightarrow> m' x = m x) \<and>
     (\<forall>x \<in> set ps. refs (the (m' x)) < refs (the (m x))) \<and>
     (\<forall>x. refs (the (m' x)) \<le> refs (the (m x)))"
proof (induction ps arbitrary: m rescan)
  case Nil
  then show ?case by simp
next
  case (Cons p ps)
  then obtain c where c: "m p = Some c" by (auto split: option.splits)
  define m1 where "m1 = m(p \<mapsto> c\<lparr>refs := (if dbl then refs c - 1 - 1 else refs c - 1)\<rparr>)"
  from Cons.prems c have "decParents m1 dbl ps (insert p rescan) = Some (m', rescan')"
    by (simp add: m1_def)
  from Cons.IH[OF this] have ih:
    "dom m' = dom m1" "rescan' = insert p rescan \<union> set ps"
    "\<forall>x. x \<notin> set ps \<longrightarrow> m' x = m1 x"
    "\<forall>x \<in> set ps. refs (the (m' x)) < refs (the (m1 x))"
    "\<forall>x. refs (the (m' x)) \<le> refs (the (m1 x))"
    by auto
  have m1p: "refs (the (m1 p)) < refs (the (m p))"
    using c by (simp add: m1_def)
  have m1o: "\<And>x. x \<noteq> p \<Longrightarrow> m1 x = m x"
    by (simp add: m1_def)
  have m1le: "\<And>x. refs (the (m1 x)) \<le> refs (the (m x))"
    using m1p m1o by (metis less_imp_le order_refl)
  have "dom m' = dom m" using ih(1) c by (auto simp: m1_def)
  moreover have "rescan' = rescan \<union> set (p # ps)" using ih(2) by auto
  moreover have "\<forall>x. x \<notin> set (p # ps) \<longrightarrow> m' x = m x"
    using ih(3) m1o by auto
  moreover have "\<forall>x \<in> set (p # ps). refs (the (m' x)) < refs (the (m x))"
  proof
    fix x assume "x \<in> set (p # ps)"
    then consider "x \<in> set ps" | "x = p" "x \<notin> set ps" by auto
    then show "refs (the (m' x)) < refs (the (m x))"
    proof cases
      case 1
      then show ?thesis using ih(4) m1le[of x] by (meson le_less_trans less_le_trans)
    next
      case 2
      then show ?thesis using ih(3) m1p by simp
    qed
  qed
  moreover have "\<forall>x. refs (the (m' x)) \<le> refs (the (m x))"
    using ih(5) m1le by (meson order_trans)
  ultimately show ?case by blast
qed

lemma live_step_idle:
  assumes "m i = Some v" and "refs v \<noteq> 0"
  shows "live m (rescan - {i}) = live m rescan"
  using assms by (auto simp: live_def)

lemma live_step_fire:
  assumes "m i = Some v" and "refs v = 0" and "i \<in> rescan"
    and "decParents m dbl ps rescan = Some (m', rescan')"
  shows "live m' (rescan' - {i}) \<subset> live m rescan"
proof -
  from decParents_props[OF assms(4)] have p:
    "dom m' = dom m" "rescan' = rescan \<union> set ps"
    "\<forall>x. x \<notin> set ps \<longrightarrow> m' x = m x"
    "\<forall>x \<in> set ps. refs (the (m' x)) < refs (the (m x))"
    "\<forall>x. refs (the (m' x)) \<le> refs (the (m x))"
    by auto
  have i_in: "i \<in> live m rescan"
    using assms(1-3) by (auto simp: live_def)
  have i_out: "i \<notin> live m' (rescan' - {i})"
    using p(5)[rule_format, of i] assms(1,2) by (auto simp: live_def)
  have sub: "live m' (rescan' - {i}) \<subseteq> live m rescan"
  proof
    fix x assume x: "x \<in> live m' (rescan' - {i})"
    then have d: "x \<in> dom m" using p(1) by (auto simp: live_def)
    show "x \<in> live m rescan"
    proof (cases "x \<in> set ps")
      case True
      then have "refs (the (m' x)) < refs (the (m x))" using p(4) by simp
      moreover from x have "refs (the (m' x)) \<ge> 0" by (auto simp: live_def)
      ultimately show ?thesis using d by (auto simp: live_def)
    next
      case False
      then have "m' x = m x" using p(3) by simp
      with x False p(2) d show ?thesis by (auto simp: live_def)
    qed
  qed
  from sub i_in i_out show ?thesis by auto
qed

text \<open>
  The loop \<^verbatim>\<open>for { if len(rescan) == 0 { break }; for id := range rescan { ... } }\<close>. A
  \<^verbatim>\<open>range\<close> over a Go map yields its keys in an order that is not specified, and the
  body adds and deletes keys; \<open>pick\<close> chooses the key of the next iteration from the
  current maps, so any order of iteration is a \<open>pick\<close>. Go maps are finite; a \<open>pick\<close>
  outside \<open>rescan\<close> is not an iteration (\<open>None\<close>).
\<close>

function rescanLoop ::
  "((string \<rightharpoonup> cacheUsageInfo) \<times> string set \<Rightarrow> string) \<Rightarrow>
   (string \<rightharpoonup> cacheUsageInfo) \<Rightarrow> string set \<Rightarrow> (string \<rightharpoonup> cacheUsageInfo) option" where
  "rescanLoop pick m rescan =
     (if \<not> finite (dom m) \<or> \<not> finite rescan then None
      else if rescan = {} then Some m
      else
        (let i = pick (m, rescan) in
         if i \<notin> rescan then None
         else (case m i of
                 None \<Rightarrow> None
               | Some v \<Rightarrow>
                   if refs v = 0 then
                     (case decParents m (doubleRef v) (parents v) rescan of
                        None \<Rightarrow> None
                      | Some (m', rescan') \<Rightarrow> rescanLoop pick m' (rescan' - {i}))
                   else rescanLoop pick m (rescan - {i}))))"
  by pat_completeness auto
lemma card_live_fire:
  assumes "finite (dom m)" and "m i = Some v" and "refs v = 0" and "i \<in> rescan"
    and "decParents m dbl ps rescan = Some (m', rescan')"
  shows "card (live m' (rescan' - {i})) < card (live m rescan)"
proof -
  have "finite (live m rescan)" using assms(1) by (auto simp: live_def)
  then show ?thesis
    using live_step_fire[OF assms(2-5)] by (rule psubset_card_mono)
qed

termination rescanLoop
  by (relation "measures [\<lambda>(pick, m, rescan). card (live m rescan),
                          \<lambda>(pick, m, rescan). card rescan]")
     (auto simp: card_live_fire live_step_idle card_gt_0_iff)

declare rescanLoop.simps [simp del]


text \<open>
  \<^verbatim>\<open>DiskUsage\<close>, up to the reference counts: the result maps a record id to the
  \<^verbatim>\<open>InUse\<close> and \<^verbatim>\<open>Parents\<close> fields of its \<^verbatim>\<open>client.UsageInfo\<close>. The filter, the shared
  marks and the sizes are left out.
\<close>

record UsageInfo =
  InUse :: bool
  Parents :: "string list"

definition DiskUsage ::
  "((string \<rightharpoonup> cacheUsageInfo) \<times> string set \<Rightarrow> string) \<Rightarrow> recordMap \<Rightarrow>
   (string \<rightharpoonup> UsageInfo) option" where
  "DiskUsage pick cm =
     (let (m, rescan) = DiskUsage_scan cm in
      case rescanLoop pick m rescan of
        None \<Rightarrow> None
      | Some m' \<Rightarrow>
          Some (\<lambda>i. case m' i of
                       None \<Rightarrow> None
                     | Some cr \<Rightarrow> Some \<lparr>InUse = (refs cr > 0), Parents = parents cr\<rparr>))"

text \<open>A \<open>pick\<close> that yields a key of the map it ranges over.\<close>

definition rangePick :: "((string \<rightharpoonup> cacheUsageInfo) \<times> string set \<Rightarrow> string) \<Rightarrow> bool" where
  "rangePick pick = (\<forall>m rescan. rescan \<noteq> {} \<longrightarrow> pick (m, rescan) \<in> rescan)"

lemma rescanLoop_no_parents:
  assumes pick: "rangePick pick"
  shows "finite (dom m) \<Longrightarrow> finite rescan \<Longrightarrow> rescan \<subseteq> dom m \<Longrightarrow>
         \<forall>i v. i \<in> rescan \<and> m i = Some v \<and> refs v = 0 \<longrightarrow> parents v = [] \<Longrightarrow>
         rescanLoop pick m rescan = Some m"
proof (induction "card rescan" arbitrary: rescan)
  case 0
  then show ?case by (subst rescanLoop.simps) simp
next
  case (Suc n)
  then have ne: "rescan \<noteq> {}" by auto
  define i where "i = pick (m, rescan)"
  have i: "i \<in> rescan" using pick ne by (simp add: rangePick_def i_def)
  then obtain v where v: "m i = Some v" using Suc.prems(3) by auto
  have c: "n = card (rescan - {i})" using Suc.hyps(2) i Suc.prems(2) by simp
  have ih: "rescanLoop pick m (rescan - {i}) = Some m"
    using Suc.hyps(1)[OF c] Suc.prems by auto
  show ?case
  proof (cases "refs v = 0")
    case True
    then have "parents v = []" using Suc.prems(4) v i by blast
    with True v i ne Suc.prems ih show ?thesis
      by (subst rescanLoop.simps) (simp add: i_def[symmetric])
  next
    case False
    with v i ne Suc.prems ih show ?thesis
      by (subst rescanLoop.simps) (simp add: i_def[symmetric])
  qed
qed

text \<open>
  The propagation, for every order of iteration. \<open>weight v\<close> is what a record \<open>v\<close> with
  \<^verbatim>\<open>v.refs == 0\<close> takes from a parent per entry of \<^verbatim>\<open>v.parents\<close>, and \<open>decrements m F p\<close> is what the
  records of the set \<open>F\<close> take from \<open>p\<close> together.
\<close>

definition weight :: "cacheUsageInfo \<Rightarrow> int" where
  "weight v = (if doubleRef v then 2 else 1)"

definition decrements :: "(string \<rightharpoonup> cacheUsageInfo) \<Rightarrow> string set \<Rightarrow> string \<Rightarrow> int" where
  "decrements m F p = (\<Sum>c\<in>F. weight (the (m c)) * int (count_list (parents (the (m c))) p))"

lemma decParents_exact:
  "decParents m dbl ps rescan = Some (m', rescan') \<Longrightarrow>
     dom m' = dom m \<and> rescan' = rescan \<union> set ps \<and>
     (\<forall>x v. m x = Some v \<longrightarrow>
        m' x = Some (v\<lparr>refs := refs v - (if dbl then 2 else 1) * int (count_list ps x)\<rparr>))"
proof (induction ps arbitrary: m rescan)
  case Nil
  then show ?case by simp
next
  case (Cons p ps)
  then obtain c where c: "m p = Some c" by (auto split: option.splits)
  define m1 where "m1 = m(p \<mapsto> c\<lparr>refs := (if dbl then refs c - 1 - 1 else refs c - 1)\<rparr>)"
  from Cons.prems c have "decParents m1 dbl ps (insert p rescan) = Some (m', rescan')"
    by (simp add: m1_def)
  from Cons.IH[OF this] have ih:
    "dom m' = dom m1" "rescan' = insert p rescan \<union> set ps"
    "\<forall>x v. m1 x = Some v \<longrightarrow>
        m' x = Some (v\<lparr>refs := refs v - (if dbl then 2 else 1) * int (count_list ps x)\<rparr>)"
    by auto
  have "dom m' = dom m" using ih(1) c by (auto simp: m1_def)
  moreover have "rescan' = rescan \<union> set (p # ps)" using ih(2) by auto
  moreover have "m' x = Some (v\<lparr>refs := refs v - (if dbl then 2 else 1) * int (count_list (p # ps) x)\<rparr>)"
    if "m x = Some v" for x v
  proof (cases "x = p")
    case True
    then have "m1 x = Some (c\<lparr>refs := (if dbl then refs c - 1 - 1 else refs c - 1)\<rparr>)"
      by (simp add: m1_def)
    from ih(3)[rule_format, OF this] show ?thesis
      using True that c by (simp add: algebra_simps)
  next
    case False
    then have "m1 x = Some v" using that by (simp add: m1_def)
    from ih(3)[rule_format, OF this] show ?thesis
      using False by simp
  qed
  ultimately show ?case by blast
qed

text \<open>
  The invariant of the loop: \<open>F\<close> is the set of the records found with \<^verbatim>\<open>refs == 0\<close> so far, and
  the map differs from the first one by their decrements (\<open>propagated\<close>); a record of \<open>F\<close> is not
  found at zero again, and every other record at zero is still to be visited (\<open>settled\<close>).
\<close>

definition propagated ::
  "(string \<rightharpoonup> cacheUsageInfo) \<Rightarrow> (string \<rightharpoonup> cacheUsageInfo) \<Rightarrow> string set \<Rightarrow> bool" where
  "propagated m0 m F \<longleftrightarrow>
     dom m = dom m0 \<and> F \<subseteq> dom m0
     \<and> (\<forall>x v0. m0 x = Some v0 \<longrightarrow>
           m x = Some (v0\<lparr>refs := refs v0 - decrements m0 F x\<rparr>))"

lemma propagated_refl: "propagated m0 m0 {}"
  by (auto simp: propagated_def decrements_def)

lemma decrements_insert:
  assumes "finite F" and "i \<notin> F"
  shows "decrements m (insert i F) p
           = decrements m F p + weight (the (m i)) * int (count_list (parents (the (m i))) p)"
  using assms by (simp add: decrements_def)

lemma propagated_fire:
  assumes p: "propagated m0 m F" and fin: "finite (dom m0)" and i: "m i = Some v" "i \<notin> F"
    and d: "decParents m (doubleRef v) (parents v) rescan = Some (m', rescan')"
  shows "propagated m0 m' (insert i F)"
proof -
  from decParents_exact[OF d] have e: "dom m' = dom m"
    "\<forall>x w. m x = Some w \<longrightarrow>
        m' x = Some (w\<lparr>refs := refs w - (if doubleRef v then 2 else 1) * int (count_list (parents v) x)\<rparr>)"
    by auto
  have finF: "finite F" using p fin by (auto simp: propagated_def intro: finite_subset)
  have "i \<in> dom m0" using p i(1) unfolding propagated_def by blast
  then obtain v0 where v0: "m0 i = Some v0" by blast
  have vv: "v = v0\<lparr>refs := refs v0 - decrements m0 F i\<rparr>"
    using p v0 i(1) by (auto simp: propagated_def)
  then have same: "doubleRef v = doubleRef v0" "parents v = parents v0" by simp_all
  have "m' x = Some (w0\<lparr>refs := refs w0 - decrements m0 (insert i F) x\<rparr>)" if "m0 x = Some w0" for x w0
  proof -
    have "m x = Some (w0\<lparr>refs := refs w0 - decrements m0 F x\<rparr>)"
      using p that by (auto simp: propagated_def)
    from e(2)[rule_format, OF this] show ?thesis
      using decrements_insert[OF finF i(2), of m0 x] v0 same
      by (simp add: weight_def algebra_simps)
  qed
  moreover have "insert i F \<subseteq> dom m0" using p v0 by (auto simp: propagated_def)
  moreover have "dom m' = dom m0" using e(1) p by (simp add: propagated_def)
  ultimately show ?thesis by (simp add: propagated_def)
qed

definition settled ::
  "(string \<rightharpoonup> cacheUsageInfo) \<Rightarrow> string set \<Rightarrow> string set \<Rightarrow> bool" where
  "settled m rescan F \<longleftrightarrow>
     (\<forall>c\<in>F. refs (the (m c)) < 0 \<or> (refs (the (m c)) = 0 \<and> c \<notin> rescan))
     \<and> (\<forall>c\<in>dom m - F. refs (the (m c)) = 0 \<longrightarrow> c \<in> rescan)"

lemma settled_idle:
  assumes "settled m rescan F" and "m i = Some v" and "refs v \<noteq> 0"
  shows "settled m (rescan - {i}) F"
  using assms by (auto simp: settled_def)

lemma settled_fire:
  assumes s: "settled m rescan F" and i: "m i = Some v" "refs v = 0" "i \<in> rescan"
    and d: "decParents m dbl ps rescan = Some (m', rescan')"
  shows "i \<notin> F \<and> settled m' (rescan' - {i}) (insert i F)"
proof -
  from decParents_props[OF d] have p:
    "dom m' = dom m" "rescan' = rescan \<union> set ps"
    "\<forall>x. x \<notin> set ps \<longrightarrow> m' x = m x"
    "\<forall>x \<in> set ps. refs (the (m' x)) < refs (the (m x))"
    "\<forall>x. refs (the (m' x)) \<le> refs (the (m x))"
    by auto
  have iF: "i \<notin> F" using s i by (auto simp: settled_def)
  have 1: "refs (the (m' c)) < 0 \<or> (refs (the (m' c)) = 0 \<and> c \<notin> rescan' - {i})"
    if c: "c \<in> insert i F" for c
  proof (cases "c \<in> set ps")
    case True
    have "refs (the (m c)) \<le> 0" using c s i by (auto simp: settled_def)
    then show ?thesis using p(4) True by force
  next
    case False
    then have eq: "m' c = m c" using p(3) by simp
    show ?thesis
    proof (cases "c = i")
      case True
      then show ?thesis using eq i by simp
    next
      case False
      then have "c \<in> F" using c by simp
      then show ?thesis using s eq \<open>c \<notin> set ps\<close> p(2) by (auto simp: settled_def)
    qed
  qed
  have 2: "c \<in> rescan' - {i}" if c: "c \<in> dom m' - insert i F" "refs (the (m' c)) = 0" for c
  proof (cases "c \<in> set ps")
    case True
    then show ?thesis using p(2) c by auto
  next
    case False
    then have "m' c = m c" using p(3) by simp
    then have "c \<in> rescan" using s c p(1) by (auto simp: settled_def)
    then show ?thesis using p(2) c by auto
  qed
  show ?thesis using iF 1 2 by (auto simp: settled_def)
qed

lemma decParents_defined:
  "set ps \<subseteq> dom m \<Longrightarrow> \<exists>r. decParents m dbl ps rescan = Some r"
proof (induction ps arbitrary: m rescan)
  case Nil
  then show ?case by simp
next
  case (Cons q qs)
  then obtain c where c: "m q = Some c" by auto
  define m1 where "m1 = m(q \<mapsto> c\<lparr>refs := (if dbl then refs c - 1 - 1 else refs c - 1)\<rparr>)"
  have "set qs \<subseteq> dom m1" using Cons.prems by (auto simp: m1_def)
  from Cons.IH[OF this, of "insert q rescan"]
  obtain r where "decParents m1 dbl qs (insert q rescan) = Some r" by blast
  then show ?case using c by (simp add: m1_def)
qed

lemma rescanLoop_propagates:
  assumes pick: "rangePick pick" and fin: "finite (dom m0)"
    and closed: "\<forall>c v. m0 c = Some v \<longrightarrow> set (parents v) \<subseteq> dom m0"
  shows "finite rescan \<Longrightarrow> rescan \<subseteq> dom m0 \<Longrightarrow> propagated m0 m F \<Longrightarrow> settled m rescan F \<Longrightarrow>
     \<exists>m' F'. rescanLoop pick m rescan = Some m' \<and> propagated m0 m' F' \<and> settled m' {} F'"
  using pick
proof (induction pick m rescan arbitrary: F rule: rescanLoop.induct)
  case (1 pick m rescan)
  note pick = "1.prems"(5)
  have dm: "dom m = dom m0" using "1.prems"(3) by (simp add: propagated_def)
  have finm: "finite (dom m)" using dm fin by simp
  show ?case
  proof (cases "rescan = {}")
    case True
    then have "rescanLoop pick m rescan = Some m"
      using finm by (subst rescanLoop.simps) simp
    then show ?thesis using "1.prems"(3,4) True by blast
  next
    case False
    define i where "i = pick (m, rescan)"
    have i: "i \<in> rescan" using pick False by (simp add: rangePick_def i_def)
    then obtain v where v: "m i = Some v" using "1.prems"(2) dm by auto
    show ?thesis
    proof (cases "refs v = 0")
      case nz: False
      have step: "rescanLoop pick m rescan = rescanLoop pick m (rescan - {i})"
        using finm "1.prems"(1) False i v nz
        by (subst rescanLoop.simps) (simp add: i_def[symmetric])
      have "\<exists>m' F'. rescanLoop pick m (rescan - {i}) = Some m' \<and> propagated m0 m' F' \<and> settled m' {} F'"
      proof (rule "1.IH"(2)[of i v F])
        show "\<not> (\<not> finite (dom m) \<or> \<not> finite rescan)" using finm "1.prems"(1) by simp
        show "rescan \<noteq> {}" by (rule False)
        show "i = pick (m, rescan)" by (rule i_def)
        show "\<not> i \<notin> rescan" using i by simp
        show "m i = Some v" by (rule v)
        show "refs v \<noteq> 0" by (rule nz)
        show "finite (rescan - {i})" using "1.prems"(1) by simp
        show "rescan - {i} \<subseteq> dom m0" using "1.prems"(2) by auto
        show "propagated m0 m F" by (rule "1.prems"(3))
        show "settled m (rescan - {i}) F" by (rule settled_idle[OF "1.prems"(4) v nz])
        show "rangePick pick" by (rule pick)
      qed
      then show ?thesis using step by simp
    next
      case z: True
      have "i \<in> dom m0" using v dm by blast
      then obtain v0 where v0: "m0 i = Some v0" by blast
      have vv: "v = v0\<lparr>refs := refs v0 - decrements m0 F i\<rparr>"
        using "1.prems"(3) v v0 by (auto simp: propagated_def)
      have ps: "set (parents v) \<subseteq> dom m" using closed v0 vv dm by auto
      have "\<exists>r. decParents m (doubleRef v) (parents v) rescan = Some r"
        by (rule decParents_defined[OF ps])
      then obtain m1 rescan1 where d: "decParents m (doubleRef v) (parents v) rescan = Some (m1, rescan1)"
        using ps by (metis surj_pair)
      have step: "rescanLoop pick m rescan = rescanLoop pick m1 (rescan1 - {i})"
        using finm "1.prems"(1) False i v z d
        by (subst rescanLoop.simps) (simp add: i_def[symmetric])
      from settled_fire[OF "1.prems"(4) v z i d]
      have iF: "i \<notin> F" and st: "settled m1 (rescan1 - {i}) (insert i F)" by simp_all
      have pr: "propagated m0 m1 (insert i F)"
        by (rule propagated_fire[OF "1.prems"(3) fin v iF d])
      have r1: "rescan1 = rescan \<union> set (parents v)"
        using decParents_props[OF d] by simp
      have "\<exists>m' F'. rescanLoop pick m1 (rescan1 - {i}) = Some m' \<and> propagated m0 m' F' \<and> settled m' {} F'"
      proof (rule "1.IH"(1)[of i v "(m1, rescan1)" m1 rescan1 "insert i F"])
        show "\<not> (\<not> finite (dom m) \<or> \<not> finite rescan)" using finm "1.prems"(1) by simp
        show "rescan \<noteq> {}" by (rule False)
        show "i = pick (m, rescan)" by (rule i_def)
        show "\<not> i \<notin> rescan" using i by simp
        show "m i = Some v" by (rule v)
        show "refs v = 0" by (rule z)
        show "decParents m (doubleRef v) (parents v) rescan = Some (m1, rescan1)" by (rule d)
        show "(m1, rescan1) = (m1, rescan1)" by simp
        show "finite (rescan1 - {i})" using "1.prems"(1) r1 by simp
        show "rescan1 - {i} \<subseteq> dom m0" using "1.prems"(2) r1 ps dm by auto
        show "propagated m0 m1 (insert i F)" by (rule pr)
        show "settled m1 (rescan1 - {i}) (insert i F)" by (rule st)
        show "rangePick pick" by (rule pick)
      qed
      then show ?thesis using step by simp
    qed
  qed
qed


lemma usageParents_walkParents:
  "kind cr \<noteq> Diff \<Longrightarrow> usageParents cr = map ID (walkParents cr)"
  by (cases "kind cr") (auto simp: usageParents_def walkParents_def split: option.splits)

text \<open>
  The entry that the first loop of \<^verbatim>\<open>DiskUsage\<close> makes for a record, and the maps it builds from
  \<^verbatim>\<open>cm.records\<close>, whose keys are distinct. For a record that is not of kind \<^verbatim>\<open>Diff\<close> the
  \<^verbatim>\<open>parents\<close> of the entry are the IDs of all its parents.
\<close>

definition scanned :: "recordMap \<Rightarrow> string \<times> cacheRecord \<Rightarrow> cacheUsageInfo" where
  "scanned cm e =
     \<lparr>refs = int (nrefs cm (fst e)), parents = usageParents (snd e),
      doubleRef = (equalImmutable cm (fst e) \<noteq> None)\<rparr>"

lemma DiskUsage_scan_fold:
  "distinct (map fst es) \<Longrightarrow> fst ` set es \<inter> dom m0 = {} \<Longrightarrow>
   fold (\<lambda>(i, cr) (m, rescan).
             if sharesData cm i then (m, rescan)
             else (m(i \<mapsto> \<lparr>refs = int (nrefs cm i), parents = usageParents cr,
                               doubleRef = (equalImmutable cm i \<noteq> None)\<rparr>),
                   insert i rescan))
          es (m0, r0) = (m, rescan) \<Longrightarrow>
   dom m = dom m0 \<union> {i \<in> fst ` set es. \<not> sharesData cm i}
   \<and> rescan = r0 \<union> {i \<in> fst ` set es. \<not> sharesData cm i}
   \<and> (\<forall>x\<in>dom m0. m x = m0 x)
   \<and> (\<forall>e\<in>set es. \<not> sharesData cm (fst e) \<longrightarrow> m (fst e) = Some (scanned cm e))"
proof (induction es arbitrary: m0 r0)
  case Nil
  then show ?case by auto
next
  case (Cons e es)
  obtain i cr where e: "e = (i, cr)" by (cases e)
  have d: "distinct (map fst es)" "i \<notin> fst ` set es" "i \<notin> dom m0"
    using Cons.prems(1,2) e by auto
  show ?case
  proof (cases "sharesData cm i")
    case True
    then have f: "fold (\<lambda>(i, cr) (m, rescan).
             if sharesData cm i then (m, rescan)
             else (m(i \<mapsto> \<lparr>refs = int (nrefs cm i), parents = usageParents cr,
                               doubleRef = (equalImmutable cm i \<noteq> None)\<rparr>),
                   insert i rescan))
          es (m0, r0) = (m, rescan)"
      using Cons.prems(3) e by simp
    have "fst ` set es \<inter> dom m0 = {}" using Cons.prems(2) by auto
    from Cons.IH[OF d(1) this f] show ?thesis
      using True e by auto
  next
    case False
    let ?m1 = "m0(i \<mapsto> scanned cm e)"
    have f: "fold (\<lambda>(i, cr) (m, rescan).
             if sharesData cm i then (m, rescan)
             else (m(i \<mapsto> \<lparr>refs = int (nrefs cm i), parents = usageParents cr,
                               doubleRef = (equalImmutable cm i \<noteq> None)\<rparr>),
                   insert i rescan))
          es (?m1, insert i r0) = (m, rescan)"
      using Cons.prems(3) e False by (simp add: scanned_def)
    have "fst ` set es \<inter> dom ?m1 = {}" using Cons.prems(2) d(2) by auto
    from Cons.IH[OF d(1) this f]
    have ih: "dom m = dom ?m1 \<union> {i \<in> fst ` set es. \<not> sharesData cm i}"
      "rescan = insert i r0 \<union> {i \<in> fst ` set es. \<not> sharesData cm i}"
      "\<forall>x\<in>dom ?m1. m x = ?m1 x"
      "\<forall>e\<in>set es. \<not> sharesData cm (fst e) \<longrightarrow> m (fst e) = Some (scanned cm e)"
      by blast+
    have "m i = Some (scanned cm e)" using ih(3) by simp
    moreover have "\<forall>x\<in>dom m0. m x = m0 x" using ih(3) d(3) by auto
    ultimately show ?thesis
      using ih(1,2,4) False e by auto
  qed
qed

lemma DiskUsage_scan_props:
  assumes "distinct (map fst (records cm))" and "DiskUsage_scan cm = (m, rescan)"
  shows "dom m = {i \<in> fst ` set (records cm). \<not> sharesData cm i}" and "rescan = dom m"
    and "\<forall>e\<in>set (records cm). \<not> sharesData cm (fst e) \<longrightarrow> m (fst e) = Some (scanned cm e)"
  using DiskUsage_scan_fold[OF assms(1), of Map.empty cm "{}" m rescan] assms(2)
  unfolding DiskUsage_scan_def by auto

text \<open>
  Claim C9. \<^verbatim>\<open>DiskUsage\<close> on a record map with distinct keys, where the parents that the first
  loop records are records of the map \<open>m\<close> it builds (\<^verbatim>\<open>m[p]\<close> is nil otherwise), for every order
  in which the \<^verbatim>\<open>range\<close> loops yield the keys. The first loop gives every record that is not a
  duplicate the count \<^verbatim>\<open>len(cr.refs)\<close>, and as parents the layer parent or the merge parents, which
  are all the parents of a record of the kinds this manager creates (it stores and loads no
  \<^verbatim>\<open>diffParents\<close>). The propagation returns, and there is a set \<open>F\<close> of records, those whose count
  reached zero: every record that ends with the count zero is in \<open>F\<close>, no record of \<open>F\<close> ends with
  a positive count, and the final count of every record \<open>p\<close> is its number of handles less one
  for every entry \<open>p\<close> in the parents of a record of \<open>F\<close>, less two when that record has
  \<^verbatim>\<open>doubleRef\<close>. Records outside \<open>F\<close>, which are referenced, take nothing from their parents.
  \<^verbatim>\<open>InUse\<close> is reported for the records whose final count is positive.
\<close>

theorem DiskUsage_propagates_to_parents:
  assumes "rangePick pick" and "distinct (map fst (records cm))"
    and "DiskUsage_scan cm = (m, rescan)"
    and "\<forall>c v. m c = Some v \<longrightarrow> set (parents v) \<subseteq> dom m"
  shows "(\<forall>e\<in>set (records cm). \<not> sharesData cm (fst e) \<longrightarrow>
            m (fst e) = Some \<lparr>refs = int (nrefs cm (fst e)), parents = usageParents (snd e),
                              doubleRef = (equalImmutable cm (fst e) \<noteq> None)\<rparr>
            \<and> (kind (snd e) \<noteq> Diff \<longrightarrow> usageParents (snd e) = map ID (walkParents (snd e))))
       \<and> (\<exists>m' F. rescanLoop pick m rescan = Some m'
            \<and> F \<subseteq> dom m
            \<and> (\<forall>c\<in>dom m. refs (the (m' c)) = 0 \<longrightarrow> c \<in> F)
            \<and> (\<forall>c\<in>F. refs (the (m' c)) \<le> 0)
            \<and> (\<forall>p v. m p = Some v \<longrightarrow>
                  m' p = Some (v\<lparr>refs := refs v
                     - (\<Sum>c\<in>F. (if doubleRef (the (m c)) then 2 else 1)
                                  * int (count_list (parents (the (m c))) p))\<rparr>))
            \<and> DiskUsage pick cm =
                 Some (\<lambda>i. case m' i of
                              None \<Rightarrow> None
                            | Some cr \<Rightarrow> Some \<lparr>InUse = (refs cr > 0), Parents = parents cr\<rparr>))"
proof (intro conjI)
  note sp = DiskUsage_scan_props[OF assms(2,3)]
  show "\<forall>e\<in>set (records cm). \<not> sharesData cm (fst e) \<longrightarrow>
            m (fst e) = Some \<lparr>refs = int (nrefs cm (fst e)), parents = usageParents (snd e),
                              doubleRef = (equalImmutable cm (fst e) \<noteq> None)\<rparr>
            \<and> (kind (snd e) \<noteq> Diff \<longrightarrow> usageParents (snd e) = map ID (walkParents (snd e)))"
    using sp(3) usageParents_walkParents by (simp add: scanned_def)
  have fin: "finite (dom m)" unfolding sp(1) by simp
  have "\<exists>m' F'. rescanLoop pick m rescan = Some m' \<and> propagated m m' F' \<and> settled m' {} F'"
  proof (rule rescanLoop_propagates[OF assms(1) fin assms(4), of rescan m "{}"])
    show "finite rescan" using fin sp(2) by simp
    show "rescan \<subseteq> dom m" using sp(2) by simp
    show "propagated m m {}" by (rule propagated_refl)
    show "settled m rescan {}" using sp(2) by (simp add: settled_def)
  qed
  then obtain m' F where r: "rescanLoop pick m rescan = Some m'"
    and p: "propagated m m' F" and st: "settled m' {} F"
    by blast
  have dm: "dom m' = dom m" using p by (simp add: propagated_def)
  have "F \<subseteq> dom m" using p by (simp add: propagated_def)
  moreover have "\<forall>c\<in>dom m. refs (the (m' c)) = 0 \<longrightarrow> c \<in> F"
    using st dm by (auto simp: settled_def)
  moreover have "\<forall>c\<in>F. refs (the (m' c)) \<le> 0"
    using st by (auto simp: settled_def)
  moreover have "\<forall>p v. m p = Some v \<longrightarrow>
                  m' p = Some (v\<lparr>refs := refs v
                     - (\<Sum>c\<in>F. (if doubleRef (the (m c)) then 2 else 1)
                                  * int (count_list (parents (the (m c))) p))\<rparr>)"
    using p by (simp add: propagated_def decrements_def weight_def)
  moreover have "DiskUsage pick cm =
                 Some (\<lambda>i. case m' i of
                              None \<Rightarrow> None
                            | Some cr \<Rightarrow> Some \<lparr>InUse = (refs cr > 0), Parents = parents cr\<rparr>)"
    using r assms(3) by (simp add: DiskUsage_def)
  ultimately show "\<exists>m' F. rescanLoop pick m rescan = Some m'
            \<and> F \<subseteq> dom m
            \<and> (\<forall>c\<in>dom m. refs (the (m' c)) = 0 \<longrightarrow> c \<in> F)
            \<and> (\<forall>c\<in>F. refs (the (m' c)) \<le> 0)
            \<and> (\<forall>p v. m p = Some v \<longrightarrow>
                  m' p = Some (v\<lparr>refs := refs v
                     - (\<Sum>c\<in>F. (if doubleRef (the (m c)) then 2 else 1)
                                  * int (count_list (parents (the (m c))) p))\<rparr>))
            \<and> DiskUsage pick cm =
                 Some (\<lambda>i. case m' i of
                              None \<Rightarrow> None
                            | Some cr \<Rightarrow> Some \<lparr>InUse = (refs cr > 0), Parents = parents cr\<rparr>)"
    using r by blast
qed


text \<open>
  An example: the base layer \<open>b\<close> has one handle, which the layer \<open>l\<close> holds as its layer parent,
  and \<open>l\<close> has none.
\<close>

definition example_layer_records :: recordMap where
  "example_layer_records =
     \<lparr>records =
        [(''l'', CacheRecord ''l'' (Some (CacheRecord ''b'' None [] None)) [] None),
         (''b'', CacheRecord ''b'' None [] None)],
      nrefs = (\<lambda>i. if i = ''b'' then 1 else 0),
      equalMutable = Map.empty,
      equalImmutable = Map.empty\<rparr>"

definition example_usage :: "string \<rightharpoonup> cacheUsageInfo" where
  "example_usage =
     [''l'' \<mapsto> \<lparr>refs = 0, parents = [''b''], doubleRef = False\<rparr>,
      ''b'' \<mapsto> \<lparr>refs = 1, parents = [], doubleRef = False\<rparr>]"

lemma scan_example_layer:
  "DiskUsage_scan example_layer_records = (example_usage, {''l'', ''b''})"
  by (auto simp: DiskUsage_scan_def example_layer_records_def example_usage_def sharesData_def
        usageParents_def kind_def)

lemma subset_pair_cases: "F \<subseteq> {x, y} \<Longrightarrow> x \<in> F \<Longrightarrow> F = {x} \<or> F = {x, y}"
  by auto

text \<open>
  The hypotheses of the theorem of claim C9 hold in the example, and its conclusion gives the
  counts: \<open>l\<close> is at zero and takes the one handle of \<open>b\<close>, so neither is in use.
\<close>

theorem DiskUsage_propagates_to_parents_witness:
  "\<exists>du. DiskUsage (\<lambda>(m, rescan). SOME i. i \<in> rescan) example_layer_records = Some du
      \<and> du ''l'' = Some \<lparr>InUse = False, Parents = [''b'']\<rparr>
      \<and> du ''b'' = Some \<lparr>InUse = False, Parents = []\<rparr>"
proof -
  let ?pick = "\<lambda>(m :: string \<rightharpoonup> cacheUsageInfo, rescan :: string set). SOME i. i \<in> rescan"
  have pk: "rangePick ?pick"
    by (auto simp: rangePick_def intro: someI_ex)
  have di: "distinct (map fst (records example_layer_records))"
    by (simp add: example_layer_records_def)
  have l: "example_usage ''l'' = Some \<lparr>refs = 0, parents = [''b''], doubleRef = False\<rparr>"
    and b: "example_usage ''b'' = Some \<lparr>refs = 1, parents = [], doubleRef = False\<rparr>"
    by (simp_all add: example_usage_def)
  have dom: "dom example_usage = {''l'', ''b''}"
    by (simp add: example_usage_def insert_commute)
  have cl: "\<forall>c v. example_usage c = Some v \<longrightarrow> set (parents v) \<subseteq> dom example_usage"
  proof (intro allI impI)
    fix c v assume "example_usage c = Some v"
    then have "parents v = [''b''] \<or> parents v = []"
      by (auto simp: example_usage_def split: if_splits)
    then show "set (parents v) \<subseteq> dom example_usage"
      unfolding dom by (elim disjE) simp_all
  qed
  note th = DiskUsage_propagates_to_parents[OF pk di scan_example_layer cl, THEN conjunct2]
  then obtain m' F where r: "F \<subseteq> dom example_usage"
    and z: "\<forall>c\<in>dom example_usage. refs (the (m' c)) = 0 \<longrightarrow> c \<in> F"
    and f: "\<forall>p v. example_usage p = Some v \<longrightarrow>
                  m' p = Some (v\<lparr>refs := refs v
                     - (\<Sum>c\<in>F. (if doubleRef (the (example_usage c)) then 2 else 1)
                                  * int (count_list (parents (the (example_usage c))) p))\<rparr>)"
    and du: "DiskUsage ?pick example_layer_records =
                 Some (\<lambda>i. case m' i of
                              None \<Rightarrow> None
                            | Some cr \<Rightarrow> Some \<lparr>InUse = (refs cr > 0), Parents = parents cr\<rparr>)"
    by (elim exE conjE) (rule that)
  have lb: "c = ''l'' \<or> c = ''b''" if "c \<in> F" for c
    using r that unfolding dom by blast
  have cnt_l: "count_list (parents (the (example_usage c))) ''l'' = 0" if "c \<in> F" for c
    using lb[OF that] by (elim disjE) (simp_all add: l b)
  have ml: "m' ''l'' = Some \<lparr>refs = 0, parents = [''b''], doubleRef = False\<rparr>"
    using f[rule_format, OF l] cnt_l by simp
  have "''l'' \<in> dom example_usage" unfolding dom by simp
  then have lF: "''l'' \<in> F" using z ml by simp
  have "F \<subseteq> {''l'', ''b''}" using r unfolding dom .
  then have Fc: "F = {''l''} \<or> F = {''l'', ''b''}"
    using lF by (rule subset_pair_cases)
  have sum_b: "(\<Sum>c\<in>F. (if doubleRef (the (example_usage c)) then 2 else 1)
                     * int (count_list (parents (the (example_usage c))) ''b'')) = 1"
    using Fc by (elim disjE) (simp_all add: l b)
  have mb: "m' ''b'' = Some \<lparr>refs = 0, parents = [], doubleRef = False\<rparr>"
    using f[rule_format, OF b] sum_b by simp
  let ?du = "\<lambda>i. case m' i of
                 None \<Rightarrow> None
               | Some cr \<Rightarrow> Some \<lparr>InUse = (refs cr > 0), Parents = parents cr\<rparr>"
  have "?du ''l'' = Some \<lparr>InUse = False, Parents = [''b'']\<rparr>"
    "?du ''b'' = Some \<lparr>InUse = False, Parents = []\<rparr>"
    by (simp_all add: ml mb)
  then show ?thesis
    using du by (intro exI[of _ ?du]) simp
qed


section \<open>Prune (cache/manager.go)\<close>

text \<open>
  \<^verbatim>\<open>func (cm *cacheManager) prune(ctx, ch, opt pruneOpt) error\<close> collects the records that may be
  deleted, deletes them (one of them in the garbage-collection mode \<^verbatim>\<open>keepBytes != 0\<close>) and calls
  itself again. This section embeds \<^verbatim>\<open>sortDeleteRecords\<close>, \<^verbatim>\<open>cacheRecord.remove\<close> with the releases
  it triggers, and \<^verbatim>\<open>prune\<close>.
\<close>

subsection \<open>The order of deletion\<close>

text \<open>
  The comparison of the third sort of \<^verbatim>\<open>sortDeleteRecords\<close> divides in \<^verbatim>\<open>float64\<close>. A value is kept
  as an exact fraction \<open>Fin a b\<close> with \<open>0 < b\<close>, as an infinity with its sign (\<open>Inf True\<close> is \<open>+Inf\<close>),
  or as \<open>NaN\<close>, which division of zero by zero yields and which is less than nothing and greater
  than nothing. Rounding is not part of the model: the indexes are bounded by the number of
  candidates, and the fractions compared have one and the same denominator.
\<close>

datatype float64 = NaN | Inf bool | Fin int int

definition float64_div :: "int \<Rightarrow> int \<Rightarrow> float64" where
  "float64_div a b =
     (if b = 0 then (if a = 0 then NaN else Inf (0 < a))
      else if 0 < b then Fin a b else Fin (- a) (- b))"

fun float64_add :: "float64 \<Rightarrow> float64 \<Rightarrow> float64" where
  "float64_add (Fin a b) (Fin c d) = Fin (a * d + c * b) (b * d)"
| "float64_add (Fin a b) (Inf t) = Inf t"
| "float64_add (Inf s) (Fin c d) = Inf s"
| "float64_add (Inf s) (Inf t) = (if s = t then Inf s else NaN)"
| "float64_add NaN y = NaN"
| "float64_add x NaN = NaN"

fun float64_less :: "float64 \<Rightarrow> float64 \<Rightarrow> bool" where
  "float64_less (Fin a b) (Fin c d) = (a * d < c * b)"
| "float64_less (Fin a b) (Inf t) = t"
| "float64_less (Inf s) (Fin c d) = (\<not> s)"
| "float64_less (Inf s) (Inf t) = (\<not> s \<and> t)"
| "float64_less NaN y = False"
| "float64_less x NaN = False"

text \<open>
  \<^verbatim>\<open>type deleteRecord struct\<close>; the embedded \<^verbatim>\<open>*cacheRecord\<close> is the ID of the record. A time is a
  number of nanoseconds since the zero \<^verbatim>\<open>time.Time\<close>, so that \<^verbatim>\<open>Before\<close> and \<^verbatim>\<open>After\<close> are \<open><\<close> and
  \<open>>\<close> and the zero time is \<open>0\<close>; \<open>None\<close> is the nil pointer.
\<close>

record deleteRecord =
  cacheRecord :: string
  lastUsedAt :: "int option"
  usageCount :: int
  lastUsedAtIndex :: int
  usageCountIndex :: int

text \<open>
  The three functions handed to \<^verbatim>\<open>sort.Slice\<close>. The first answers \<open>True\<close> whenever its left
  argument has no \<^verbatim>\<open>lastUsedAt\<close>, also when the right one has none either.
\<close>

definition lastUsedAt_less :: "deleteRecord \<Rightarrow> deleteRecord \<Rightarrow> bool" where
  "lastUsedAt_less i j =
     (case lastUsedAt i of
        None \<Rightarrow> True
      | Some ti \<Rightarrow> (case lastUsedAt j of None \<Rightarrow> False | Some tj \<Rightarrow> ti < tj))"

definition usageCount_less :: "deleteRecord \<Rightarrow> deleteRecord \<Rightarrow> bool" where
  "usageCount_less i j = (usageCount i < usageCount j)"

definition score :: "int \<Rightarrow> int \<Rightarrow> deleteRecord \<Rightarrow> float64" where
  "score maxLastUsedIndex maxUsageCountIndex v =
     float64_add (float64_div (lastUsedAtIndex v) maxLastUsedIndex)
                 (float64_div (usageCountIndex v) maxUsageCountIndex)"

definition score_less :: "int \<Rightarrow> int \<Rightarrow> deleteRecord \<Rightarrow> deleteRecord \<Rightarrow> bool" where
  "score_less maxLastUsedIndex maxUsageCountIndex i j =
     float64_less (score maxLastUsedIndex maxUsageCountIndex i)
                  (score maxLastUsedIndex maxUsageCountIndex j)"

text \<open>
  The two loops that number the sorted records. \<^verbatim>\<open>maxLastUsedIndex\<close> grows at every record used
  later than the latest time seen (\<^verbatim>\<open>val\<close>, at first the zero time); \<^verbatim>\<open>maxUsageCountIndex\<close> grows at
  every record whose count differs from the last count seen (at first \<open>0\<close>). The functions return
  the numbered records and the final maximum.
\<close>

fun lastUsedIndexes :: "int \<Rightarrow> int \<Rightarrow> deleteRecord list \<Rightarrow> deleteRecord list \<times> int" where
  "lastUsedIndexes maxLastUsedIndex val [] = ([], maxLastUsedIndex)"
| "lastUsedIndexes maxLastUsedIndex val (v # vs) =
     (case lastUsedAt v of
        Some t \<Rightarrow>
          if val < t
          then (let (vs', m) = lastUsedIndexes (maxLastUsedIndex + 1) t vs
                in (v\<lparr>lastUsedAtIndex := maxLastUsedIndex + 1\<rparr> # vs', m))
          else (let (vs', m) = lastUsedIndexes maxLastUsedIndex val vs
                in (v\<lparr>lastUsedAtIndex := maxLastUsedIndex\<rparr> # vs', m))
      | None \<Rightarrow>
          (let (vs', m) = lastUsedIndexes maxLastUsedIndex val vs
           in (v\<lparr>lastUsedAtIndex := maxLastUsedIndex\<rparr> # vs', m)))"

fun usageCountIndexes :: "int \<Rightarrow> int \<Rightarrow> deleteRecord list \<Rightarrow> deleteRecord list \<times> int" where
  "usageCountIndexes maxUsageCountIndex count [] = ([], maxUsageCountIndex)"
| "usageCountIndexes maxUsageCountIndex count (v # vs) =
     (if usageCount v \<noteq> count
      then (let (vs', m) = usageCountIndexes (maxUsageCountIndex + 1) (usageCount v) vs
            in (v\<lparr>usageCountIndex := maxUsageCountIndex + 1\<rparr> # vs', m))
      else (let (vs', m) = usageCountIndexes maxUsageCountIndex count vs
            in (v\<lparr>usageCountIndex := maxUsageCountIndex\<rparr> # vs', m)))"

text \<open>
  \<^verbatim>\<open>sort.Slice\<close> belongs to Go's library; it is a parameter of the embedding. \<open>rankDeleteRecords\<close>
  is \<^verbatim>\<open>sortDeleteRecords\<close> up to its last sort, with the two maxima that the comparison of the last
  sort reads.
\<close>

type_synonym sort_Slice =
  "(deleteRecord \<Rightarrow> deleteRecord \<Rightarrow> bool) \<Rightarrow> deleteRecord list \<Rightarrow> deleteRecord list"

definition rankDeleteRecords :: "sort_Slice \<Rightarrow> deleteRecord list \<Rightarrow> deleteRecord list \<times> int \<times> int" where
  "rankDeleteRecords sort_Slice toDelete =
     (let byLastUsed = sort_Slice lastUsedAt_less toDelete;
          (withLastUsedIndex, maxLastUsedIndex) = lastUsedIndexes 0 0 byLastUsed;
          byUsageCount = sort_Slice usageCount_less withLastUsedIndex;
          (withUsageCountIndex, maxUsageCountIndex) = usageCountIndexes 0 0 byUsageCount
      in (withUsageCountIndex, maxLastUsedIndex, maxUsageCountIndex))"

definition sortDeleteRecords :: "sort_Slice \<Rightarrow> deleteRecord list \<Rightarrow> deleteRecord list" where
  "sortDeleteRecords sort_Slice toDelete =
     (let (ranked, maxLastUsedIndex, maxUsageCountIndex) = rankDeleteRecords sort_Slice toDelete
      in sort_Slice (score_less maxLastUsedIndex maxUsageCountIndex) ranked)"

text \<open>Go's insertion sort (\<^verbatim>\<open>insertionSortLessFunc\<close>), to which \<^verbatim>\<open>sort.Slice\<close> resorts on short
  slices: every element moves down while it is less than its left neighbour.\<close>

fun insertDown :: "('a \<Rightarrow> 'a \<Rightarrow> bool) \<Rightarrow> 'a \<Rightarrow> 'a list \<Rightarrow> 'a list" where
  "insertDown lessFn x [] = [x]"
| "insertDown lessFn x (y # ys) =
     (if lessFn x y then y # insertDown lessFn x ys else x # y # ys)"

definition insertionSort :: "('a \<Rightarrow> 'a \<Rightarrow> bool) \<Rightarrow> 'a list \<Rightarrow> 'a list" where
  "insertionSort lessFn xs = rev (foldl (\<lambda>sorted x. insertDown lessFn x sorted) [] xs)"


subsection \<open>The records and their references\<close>

text \<open>
  The fields of a \<^verbatim>\<open>cacheRecord\<close> that \<^verbatim>\<open>prune\<close> and \<^verbatim>\<open>remove\<close> read or write. A pointer to a record
  is the record's ID, and \<open>objs\<close> maps every ID to the state of its record; \<open>records\<close> holds the keys
  of the map \<^verbatim>\<open>cm.records\<close> in the order in which \<^verbatim>\<open>range\<close> yields them. A reference (\<^verbatim>\<open>immutableRef\<close>
  or \<^verbatim>\<open>mutableRef\<close>) is a handle number: \<open>refs\<close> is the set \<^verbatim>\<open>cr.refs\<close> of one record, \<open>parentRefs\<close> lists
  the non-nil references a record holds on its parents (\<^verbatim>\<open>layerParent\<close>, or \<^verbatim>\<open>mergeParents\<close>, or the
  lower and upper of \<^verbatim>\<open>diffParents\<close>), each with the record it points to, and \<open>equalMutable\<close> is the
  reference on the mutable twin. \<open>mu\<close> names the mutex, which twins share. \<open>cachePolicyRetain\<close>,
  \<open>recordType\<close>, \<open>lastUsed\<close> and \<open>getSize\<close> are the metadata getters of the same names.
\<close>

type_synonym handle = nat

record recordState =
  mutable :: bool
  refs :: "handle list"
  parentRefs :: "(string \<times> handle) list"
  equalMutable :: "(string \<times> handle) option"
  equalImmutable :: "string option"
  dead :: bool
  mu :: nat
  cachePolicyRetain :: bool
  recordType :: string
  lastUsed :: "int \<times> int option"
  getSize :: int
  triggerLastUsed :: "handle \<Rightarrow> bool"

record pruneStore =
  objs :: "string \<Rightarrow> recordState"
  records :: "string list"

text \<open>
  What \<^verbatim>\<open>prune\<close> gets from outside the package: the library sort, the clock at each pass, the
  constant \<^verbatim>\<open>sizeUnknown\<close> and the metadata update \<^verbatim>\<open>updateLastUsed\<close> (both of cache/metadata.go),
  and the calls that can fail, each as a function of its argument: \<^verbatim>\<open>queueDeleted\<close> with
  \<^verbatim>\<open>commitMetadata\<close>, \<^verbatim>\<open>cr.size(ctx)\<close> (\<open>Inr None\<close> when it returns \<open>0\<close> for a dead record without storing
  a size), \<^verbatim>\<open>LeaseManager.Delete\<close>, \<^verbatim>\<open>MetadataStore.Clear\<close>, and whether the context is done after a
  pass.
\<close>

record pruneEnv =
  sort_Slice :: sort_Slice
  time_Now :: "nat \<Rightarrow> int"
  sizeUnknown :: int
  updateLastUsed :: "int \<times> int option \<Rightarrow> int \<times> int option"
  commitMetadata :: "string \<Rightarrow> error option"
  size_call :: "string \<Rightarrow> error + int option"
  LeaseManager_Delete :: "string \<Rightarrow> error option"
  MetadataStore_Clear :: "string \<Rightarrow> error option"
  ctx_Done :: "nat \<Rightarrow> bool"

text \<open>
  \<open>upd c f\<close> assigns to fields of the record \<open>c\<close>. \<^verbatim>\<open>func (cr *cacheRecord) isDead() bool\<close>.
\<close>

definition upd :: "string \<Rightarrow> (recordState \<Rightarrow> recordState) \<Rightarrow> pruneStore \<Rightarrow> pruneStore" where
  "upd c f cm = cm\<lparr>objs := (objs cm)(c := f (objs cm c))\<rparr>"

definition isDead :: "pruneStore \<Rightarrow> string \<Rightarrow> bool" where
  "isDead cm c =
     (dead (objs cm c)
      \<or> (case equalImmutable (objs cm c) of Some i \<Rightarrow> dead (objs cm i) | None \<Rightarrow> False)
      \<or> (case equalMutable (objs cm c) of Some (m, h) \<Rightarrow> dead (objs cm m) | None \<Rightarrow> False))"

text \<open>
  \<^verbatim>\<open>LeaseManager.Delete\<close> with the test \<^verbatim>\<open>err != nil && !errdefs.IsNotFound(err)\<close> of its callers;
  \<open>firstError\<close> is the idiom \<^verbatim>\<open>if err1 := ...; err == nil { err = err1 }\<close>.
\<close>

definition leaseDelete :: "pruneEnv \<Rightarrow> string \<Rightarrow> error option" where
  "leaseDelete env l =
     (case LeaseManager_Delete env l of
        Some e \<Rightarrow> if e = errdefs_ErrNotFound then None else Some e
      | None \<Rightarrow> None)"

definition firstError :: "error option \<Rightarrow> error option \<Rightarrow> error option" where
  "firstError err err1 = (case err of None \<Rightarrow> err1 | Some e \<Rightarrow> Some e)"

text \<open>
  The first statement of \<^verbatim>\<open>immutableRef.release\<close> after the handle is gone:
  \<^verbatim>\<open>if sr.updateLastUsedNow() { sr.updateLastUsed(); ... equalMutable.triggerLastUsed = true }\<close>.
\<close>

definition touchLastUsed :: "pruneEnv \<Rightarrow> string \<Rightarrow> handle \<Rightarrow> pruneStore \<Rightarrow> pruneStore" where
  "touchLastUsed env p h cm =
     (let sr = objs cm p in
      if triggerLastUsed sr h \<and> list_all (\<lambda>r. \<not> triggerLastUsed sr r) (refs sr)
      then (let cm1 = upd p (\<lambda>r. r\<lparr>lastUsed := updateLastUsed env (lastUsed r)\<rparr>) cm
            in case equalMutable sr of
                 Some (m, hm) \<Rightarrow> upd m (\<lambda>r. r\<lparr>triggerLastUsed := (triggerLastUsed r)(hm := True)\<rparr>) cm1
               | None \<Rightarrow> cm1)
      else cm)"



text \<open>
  \<^verbatim>\<open>mutableRef.release\<close>, \<^verbatim>\<open>immutableRef.release\<close>, \<^verbatim>\<open>parentRefs.release\<close> and \<^verbatim>\<open>cacheRecord.remove\<close>
  call one another: removing a record releases its parents, releasing the last handle of a parent
  with a mutable twin releases the twin, and that removes both. Nothing in the code bounds the
  depth of these calls, so \<open>remove\<close> carries a fuel that counts the nested calls of \<^verbatim>\<open>remove\<close>, and
  \<open>None\<close> is the call that does not return within it; the three release functions get the
  \<open>remove\<close> of the remaining fuel as their first argument. \<^verbatim>\<open>immutableRef.release\<close> drops the result
  of \<^verbatim>\<open>equalMutable.release\<close>, as the source does.
\<close>

type_synonym removeFn = "string \<Rightarrow> bool \<Rightarrow> pruneStore \<Rightarrow> (error option \<times> pruneStore) option"

definition mutableRef_release ::
  "removeFn \<Rightarrow> pruneEnv \<Rightarrow> string \<times> handle \<Rightarrow> pruneStore \<Rightarrow> (error option \<times> pruneStore) option" where
  "mutableRef_release remove env sr cm =
     (let (m, h) = sr;
          cm1 = upd m (\<lambda>r. r\<lparr>refs := removeAll h (refs r)\<rparr>) cm;
          touched =
            (if triggerLastUsed (objs cm1 m) h
             then upd m (\<lambda>r. r\<lparr>lastUsed := updateLastUsed env (lastUsed r),
                               triggerLastUsed := (triggerLastUsed r)(h := False)\<rparr>) cm1
             else cm1)
      in if \<not> cachePolicyRetain (objs cm1 m)
         then (case equalImmutable (objs cm1 m) of
                 Some i \<Rightarrow>
                   if cachePolicyRetain (objs cm1 i) then Some (None, touched)
                   else (case remove i False cm1 of
                           None \<Rightarrow> None
                         | Some (Some e, cm2) \<Rightarrow> Some (Some e, cm2)
                         | Some (None, cm2) \<Rightarrow> remove m True cm2)
               | None \<Rightarrow> remove m True cm1)
         else Some (None, touched))"

definition immutableRef_release ::
  "removeFn \<Rightarrow> pruneEnv \<Rightarrow> string \<times> handle \<Rightarrow> pruneStore \<Rightarrow> (error option \<times> pruneStore) option" where
  "immutableRef_release remove env sr cm =
     (let (p, h) = sr;
          cm1 = upd p (\<lambda>r. r\<lparr>refs := removeAll h (refs r)\<rparr>) cm;
          cm2 = touchLastUsed env p h cm1
      in if refs (objs cm2 p) = []
         then (case equalMutable (objs cm2 p) of
                 Some m \<Rightarrow>
                   (case mutableRef_release remove env m cm2 of
                      None \<Rightarrow> None
                    | Some (_, cm3) \<Rightarrow> Some (None, cm3))
               | None \<Rightarrow> Some (leaseDelete env (p @ ''-view''), cm2))
         else Some (None, cm2))"

primrec parentRefs_release ::
  "removeFn \<Rightarrow> pruneEnv \<Rightarrow> (string \<times> handle) list \<Rightarrow> pruneStore \<Rightarrow> (error option \<times> pruneStore) option" where
  "parentRefs_release remove env [] cm = Some (None, cm)"
| "parentRefs_release remove env (parent # ps) cm =
     (case immutableRef_release remove env parent cm of
        None \<Rightarrow> None
      | Some (err, cm1) \<Rightarrow>
          (case parentRefs_release remove env ps cm1 of
             None \<Rightarrow> None
           | Some (rerr, cm2) \<Rightarrow> Some (firstError err rerr, cm2)))"

primrec remove :: "nat \<Rightarrow> pruneEnv \<Rightarrow> removeFn" where
  "remove 0 env = (\<lambda>c removeSnapshot cm. None)"
| "remove (Suc n) env = (\<lambda>c removeSnapshot cm.
     (let cm1 = cm\<lparr>records := filter (\<lambda>k. k \<noteq> c) (records cm)\<rparr> in
      if removeSnapshot \<and> leaseDelete env c \<noteq> None then Some (leaseDelete env c, cm1)
      else if MetadataStore_Clear env c \<noteq> None then Some (MetadataStore_Clear env c, cm1)
      else parentRefs_release (remove n env) env (parentRefs (objs cm1 c)) cm1))"


subsection \<open>One pass of prune\<close>

text \<open>
  The \<^verbatim>\<open>client.UsageInfo\<close> that the filter of the options sees, and \<^verbatim>\<open>type pruneOpt struct\<close>.
  \<open>checkShared\<close> is the \<^verbatim>\<open>Exists\<close> of the external checker, \<open>None\<close> when there is none.
\<close>

record usageInfo =
  ui_ID :: string
  ui_Mutable :: bool
  ui_RecordType :: string
  ui_Shared :: bool
  ui_LastUsedAt :: "int option"
  ui_UsageCount :: int

record pruneOpt =
  filter_Match :: "usageInfo \<Rightarrow> bool"
  all :: bool
  checkShared :: "(string \<Rightarrow> bool) option"
  keepDuration :: int
  keepBytes :: int
  totalSize :: int

text \<open>
  \<open>duplicate\<close> is the test under ``ignore duplicates that share data''; \<open>prunable\<close> collects the
  tests of the body of \<^verbatim>\<open>if len(cr.refs) == 0\<close> that let a record through to the filter, and the
  filter.
\<close>

definition gcMode :: "pruneOpt \<Rightarrow> bool" where
  "gcMode opt = (keepBytes opt \<noteq> 0)"

definition duplicate :: "pruneStore \<Rightarrow> string \<Rightarrow> bool" where
  "duplicate cm c =
     ((case equalImmutable (objs cm c) of Some i \<Rightarrow> refs (objs cm i) \<noteq> [] | None \<Rightarrow> False)
      \<or> (equalMutable (objs cm c) \<noteq> None \<and> refs (objs cm c) = []))"

definition usageInfoOf :: "pruneOpt \<Rightarrow> pruneStore \<Rightarrow> string \<Rightarrow> usageInfo" where
  "usageInfoOf opt cm c =
     (let cr = objs cm c in
      \<lparr>ui_ID = c,
       ui_Mutable = mutable cr,
       ui_RecordType = (if recordType cr = [] then ''regular'' else recordType cr),
       ui_Shared = (case checkShared opt of Some Exists \<Rightarrow> Exists c | None \<Rightarrow> False),
       ui_LastUsedAt = snd (lastUsed cr),
       ui_UsageCount = fst (lastUsed cr)\<rparr>)"

definition prunable :: "pruneOpt \<Rightarrow> int \<Rightarrow> pruneStore \<Rightarrow> string \<Rightarrow> bool" where
  "prunable opt cutOff cm c =
     (let ui = usageInfoOf opt cm c in
      refs (objs cm c) = []
      \<and> (all opt \<or> \<not> (ui_RecordType ui = ''internal'' \<or> ui_RecordType ui = ''frontend'' \<or> ui_Shared ui))
      \<and> \<not> (keepDuration opt \<noteq> 0
            \<and> (case ui_LastUsedAt ui of Some t \<Rightarrow> cutOff < t | None \<Rightarrow> False))
      \<and> filter_Match opt ui)"

definition newDeleteRecord :: "pruneStore \<Rightarrow> string \<Rightarrow> deleteRecord" where
  "newDeleteRecord cm c =
     \<lparr>cacheRecord = c, lastUsedAt = snd (lastUsed (objs cm c)), usageCount = fst (lastUsed (objs cm c)),
      lastUsedAtIndex = 0, usageCountIndex = 0\<rparr>"

text \<open>
  The first loop of \<^verbatim>\<open>prune\<close>, over the keys still to visit. It returns the error of
  \<^verbatim>\<open>queueDeleted\<close> or \<^verbatim>\<open>commitMetadata\<close> if there is one, \<^verbatim>\<open>toDelete\<close> and the store. In the
  garbage-collection mode a collected record stays locked and its mutex is remembered in
  \<^verbatim>\<open>locked\<close>; otherwise the record is marked dead at once.
\<close>

primrec collect ::
  "pruneEnv \<Rightarrow> pruneOpt \<Rightarrow> int \<Rightarrow> string list \<Rightarrow> deleteRecord list \<Rightarrow> nat list \<Rightarrow> pruneStore
     \<Rightarrow> error option \<times> deleteRecord list \<times> pruneStore" where
  "collect env opt cutOff [] toDelete locked cm = (None, toDelete, cm)"
| "collect env opt cutOff (c # cs) toDelete locked cm =
     (if mu (objs cm c) \<in> set locked then collect env opt cutOff cs toDelete locked cm
      else if duplicate cm c then collect env opt cutOff cs toDelete locked cm
      else if isDead cm c then collect env opt cutOff cs toDelete locked cm
      else if prunable opt cutOff cm c
      then (if \<not> gcMode opt
            then (let cm1 = upd c (\<lambda>r. r\<lparr>dead := True\<rparr>) cm in
                  case commitMetadata env c of
                    Some err \<Rightarrow> (Some err, toDelete @ [newDeleteRecord cm c], cm1)
                  | None \<Rightarrow> collect env opt cutOff cs (toDelete @ [newDeleteRecord cm c]) locked cm1)
            else collect env opt cutOff cs (toDelete @ [newDeleteRecord cm c])
                   (mu (objs cm c) # locked) cm)
      else collect env opt cutOff cs toDelete locked cm)"

text \<open>
  The size of a record as both later loops read it, the loop that computes unknown sizes, and the
  loop that removes the records of \<^verbatim>\<open>toDelete\<close>, subtracts their sizes from \<^verbatim>\<open>opt.totalSize\<close> and
  sends them on \<^verbatim>\<open>ch\<close> (the last argument is what has been sent).
\<close>

definition sizeOf :: "pruneEnv \<Rightarrow> pruneStore \<Rightarrow> string \<Rightarrow> int" where
  "sizeOf env cm c =
     (if getSize (objs cm c) = sizeUnknown env
      then (case equalImmutable (objs cm c) of
              Some i \<Rightarrow> getSize (objs cm i)
            | None \<Rightarrow> getSize (objs cm c))
      else getSize (objs cm c))"

primrec calcSizes :: "pruneEnv \<Rightarrow> deleteRecord list \<Rightarrow> pruneStore \<Rightarrow> error option \<times> pruneStore" where
  "calcSizes env [] cm = (None, cm)"
| "calcSizes env (cr # crs) cm =
     (if sizeOf env cm (cacheRecord cr) = sizeUnknown env
      then (case size_call env (cacheRecord cr) of
              Inl err \<Rightarrow> (Some err, cm)
            | Inr None \<Rightarrow> calcSizes env crs cm
            | Inr (Some s) \<Rightarrow> calcSizes env crs (upd (cacheRecord cr) (\<lambda>r. r\<lparr>getSize := s\<rparr>) cm))
      else calcSizes env crs cm)"

primrec deleteAll ::
  "nat \<Rightarrow> pruneEnv \<Rightarrow> deleteRecord list \<Rightarrow> error option \<Rightarrow> pruneStore \<Rightarrow> int \<Rightarrow> string list
     \<Rightarrow> (error option \<times> pruneStore \<times> int \<times> string list) option" where
  "deleteAll n env [] err cm tsize ch = Some (err, cm, tsize, ch)"
| "deleteAll n env (cr # crs) err cm tsize ch =
     (let c = cacheRecord cr;
          tsize1 = tsize - sizeOf env cm c;
          twin = (case equalImmutable (objs cm c) of
                    Some i \<Rightarrow> remove n env i False cm
                  | None \<Rightarrow> Some (None, cm))
      in case twin of
           None \<Rightarrow> None
         | Some (err1, cm1) \<Rightarrow>
             (case remove n env c True cm1 of
                None \<Rightarrow> None
              | Some (err2, cm2) \<Rightarrow>
                  (let err' = firstError (firstError err err1) err2
                   in deleteAll n env crs err' cm2 tsize1
                        (if err' = None then ch @ [c] else ch))))"

text \<open>
  The block \<^verbatim>\<open>if gcMode && len(toDelete) > 0\<close>: only the first record of the sorted slice is marked
  dead and kept.
\<close>

definition markVictim :: "pruneEnv \<Rightarrow> deleteRecord list \<Rightarrow> pruneStore \<Rightarrow> error option \<times> pruneStore" where
  "markVictim env toDelete cm =
     (case toDelete of
        [] \<Rightarrow> (None, cm)
      | cr # crs \<Rightarrow> (commitMetadata env (cacheRecord cr),
                     upd (cacheRecord cr) (\<lambda>r. r\<lparr>dead := True\<rparr>) cm))"

definition context_Canceled :: error where
  "context_Canceled = OtherError ''context canceled''"

definition gcSelect ::
  "pruneEnv \<Rightarrow> deleteRecord list \<Rightarrow> pruneStore \<Rightarrow> error option \<times> deleteRecord list \<times> pruneStore" where
  "gcSelect env toDelete cm =
     (let sorted = sortDeleteRecords (sort_Slice env) toDelete;
          (err, cm') = markVictim env sorted cm
      in (err, take 1 sorted, cm'))"

text \<open>
  The rest of \<^verbatim>\<open>prune\<close> after the manager lock is released: \<open>Inl\<close> is a return, \<open>Inr\<close> the
  recursive call with the new store, the new \<^verbatim>\<open>opt.totalSize\<close> and what has been sent.
\<close>

definition deleteRecords ::
  "nat \<Rightarrow> pruneEnv \<Rightarrow> nat \<Rightarrow> deleteRecord list \<Rightarrow> pruneStore \<Rightarrow> int \<Rightarrow> string list
     \<Rightarrow> ((error option \<times> pruneStore \<times> int \<times> string list) + (pruneStore \<times> int \<times> string list)) option" where
  "deleteRecords n env pass toDelete cm tsize ch =
     (case calcSizes env toDelete cm of
        (Some err, cm1) \<Rightarrow> Some (Inl (Some err, cm1, tsize, ch))
      | (None, cm1) \<Rightarrow>
          (case deleteAll n env toDelete None cm1 tsize ch of
             None \<Rightarrow> None
           | Some (Some err, cm2, tsize', ch') \<Rightarrow> Some (Inl (Some err, cm2, tsize', ch'))
           | Some (None, cm2, tsize', ch') \<Rightarrow>
               if ctx_Done env pass
               then Some (Inl (Some context_Canceled, cm2, tsize', ch'))
               else Some (Inr (cm2, tsize', ch'))))"

text \<open>
  One activation of \<^verbatim>\<open>prune\<close> up to its return or its recursive call, and \<^verbatim>\<open>prune\<close> itself. The
  recursion has no bound in the code; \<open>prune\<close> is the partial function of it, \<open>None\<close> when it does
  not return.
\<close>

definition prunePass ::
  "nat \<Rightarrow> pruneEnv \<Rightarrow> pruneOpt \<Rightarrow> nat \<Rightarrow> pruneStore \<Rightarrow> string list
     \<Rightarrow> ((error option \<times> pruneStore \<times> int \<times> string list) + (pruneStore \<times> int \<times> string list)) option" where
  "prunePass n env opt pass cm ch =
     (if keepBytes opt \<noteq> 0 \<and> totalSize opt < keepBytes opt
      then Some (Inl (None, cm, totalSize opt, ch))
      else
        (let cutOff = time_Now env pass - keepDuration opt;
             (err, collected, cm1) = collect env opt cutOff (records cm) [] [] cm
         in if err \<noteq> None then Some (Inl (err, cm1, totalSize opt, ch))
            else
              (let (err, toDelete, cm2) =
                     (if gcMode opt \<and> collected \<noteq> [] then gcSelect env collected cm1
                      else (None, collected, cm1))
               in if err \<noteq> None then Some (Inl (err, cm2, totalSize opt, ch))
                  else if toDelete = [] then Some (Inl (None, cm2, totalSize opt, ch))
                  else deleteRecords n env pass toDelete cm2 (totalSize opt) ch)))"

partial_function (option) prune ::
  "nat \<Rightarrow> pruneEnv \<Rightarrow> pruneOpt \<Rightarrow> nat \<Rightarrow> pruneStore \<Rightarrow> string list
     \<Rightarrow> (error option \<times> pruneStore \<times> int \<times> string list) option" where
  "prune n env opt pass cm ch =
     (case prunePass n env opt pass cm ch of
        None \<Rightarrow> None
      | Some (Inl result) \<Rightarrow> Some result
      | Some (Inr (cm', tsize, ch')) \<Rightarrow>
          prune n env (opt\<lparr>totalSize := tsize\<rparr>) (Suc pass) cm' ch')"

declare prune.simps [code]




text \<open>
  What the library promises of \<^verbatim>\<open>sort.Slice\<close>: the slice is permuted, and it ends sorted when the
  function it is given is a strict weak order on the elements. The order among equivalent elements
  is not specified.
\<close>

definition strict_weak_order_on :: "'a set \<Rightarrow> ('a \<Rightarrow> 'a \<Rightarrow> bool) \<Rightarrow> bool" where
  "strict_weak_order_on A lt \<longleftrightarrow>
     (\<forall>a\<in>A. \<not> lt a a)
     \<and> (\<forall>a\<in>A. \<forall>b\<in>A. \<forall>c\<in>A. lt a b \<longrightarrow> lt b c \<longrightarrow> lt a c)
     \<and> (\<forall>a\<in>A. \<forall>b\<in>A. \<forall>c\<in>A. \<not> lt a b \<longrightarrow> \<not> lt b c \<longrightarrow> \<not> lt a c)"

definition sorts :: "sort_Slice \<Rightarrow> bool" where
  "sorts srt \<longleftrightarrow>
     (\<forall>lt xs. (\<forall>x. count_list (srt lt xs) x = count_list xs x)
        \<and> (strict_weak_order_on (set xs) lt \<longrightarrow> sorted_wrt (\<lambda>a b. \<not> lt b a) (srt lt xs)))"

lemma sorts_set: "sorts srt \<Longrightarrow> set (srt lt xs) = set xs"
proof -
  assume s: "sorts srt"
  have "\<And>x. (count_list (srt lt xs) x = 0) = (count_list xs x = 0)"
    using s unfolding sorts_def by simp
  then show ?thesis
    unfolding count_list_0_iff by blast
qed

lemma sorts_sorted:
  "sorts srt \<Longrightarrow> strict_weak_order_on (set xs) lt \<Longrightarrow> sorted_wrt (\<lambda>a b. \<not> lt b a) (srt lt xs)"
  unfolding sorts_def by blast

lemma sorts_Nil_iff: "sorts srt \<Longrightarrow> srt lt xs = [] \<longleftrightarrow> xs = []"
  using sorts_set[of srt lt xs] by (metis set_empty)

lemma sorted_hd_minimal:
  assumes "sorted_wrt (\<lambda>a b. \<not> lt b a) ys" and "\<forall>a\<in>set ys. \<not> lt a a" and "c \<in> set ys"
  shows "\<not> lt c (hd ys)"
  using assms by (cases ys) auto

text \<open>
  The insertion sort keeps this promise.
\<close>

lemma count_insertDown: "count_list (insertDown lt x ys) z = count_list (x # ys) z"
  by (induction ys) auto

lemma set_insertDown: "set (insertDown lt x ys) = insert x (set ys)"
  by (induction ys) auto

lemma count_foldl_insertDown:
  "count_list (foldl (\<lambda>sorted x. insertDown lt x sorted) acc xs) z = count_list acc z + count_list xs z"
  by (induction xs arbitrary: acc) (auto simp: count_insertDown)

lemma set_foldl_insertDown:
  "set (foldl (\<lambda>sorted x. insertDown lt x sorted) acc xs) = set acc \<union> set xs"
  by (induction xs arbitrary: acc) (auto simp: set_insertDown)

lemma sorted_insertDown:
  assumes "strict_weak_order_on A lt" and "x \<in> A" and "set ys \<subseteq> A"
    and "sorted_wrt (\<lambda>a b. \<not> lt a b) ys"
  shows "sorted_wrt (\<lambda>a b. \<not> lt a b) (insertDown lt x ys)"
  using assms(3,4)
proof (induction ys)
  case Nil
  then show ?case by simp
next
  case (Cons y ys)
  show ?case
  proof (cases "lt x y")
    case True
    have "\<not> lt y x"
      using True assms(1,2) Cons.prems(1) unfolding strict_weak_order_on_def
      by (metis list.set_intros(1) subsetD)
    then show ?thesis
      using True Cons by (auto simp: set_insertDown)
  next
    case False
    have "\<not> lt x z" if "z \<in> set ys" for z
    proof -
      have "\<not> lt y z" using Cons.prems(2) that by simp
      moreover have "z \<in> A" "y \<in> A" using Cons.prems(1) that by auto
      ultimately show ?thesis
        using False assms(1,2) unfolding strict_weak_order_on_def by blast
    qed
    then show ?thesis
      using False Cons.prems(2) by auto
  qed
qed

lemma sorted_foldl_insertDown:
  assumes "strict_weak_order_on A lt"
  shows "set xs \<subseteq> A \<Longrightarrow> set acc \<subseteq> A \<Longrightarrow> sorted_wrt (\<lambda>a b. \<not> lt a b) acc
    \<Longrightarrow> sorted_wrt (\<lambda>a b. \<not> lt a b) (foldl (\<lambda>sorted x. insertDown lt x sorted) acc xs)"
proof (induction xs arbitrary: acc)
  case Nil
  then show ?case by simp
next
  case (Cons x xs)
  have "sorted_wrt (\<lambda>a b. \<not> lt a b) (insertDown lt x acc)"
    using sorted_insertDown[OF assms, of x acc] Cons.prems by simp
  moreover have "set (insertDown lt x acc) \<subseteq> A"
    using Cons.prems by (simp add: set_insertDown)
  ultimately show ?case
    using Cons.IH[of "insertDown lt x acc"] Cons.prems(1) by simp
qed

lemma sorts_insertionSort: "sorts insertionSort"
  unfolding sorts_def
proof (intro allI conjI impI)
  fix lt :: "deleteRecord \<Rightarrow> deleteRecord \<Rightarrow> bool" and xs x
  show "count_list (insertionSort lt xs) x = count_list xs x"
    by (simp add: insertionSort_def count_foldl_insertDown)
next
  fix lt :: "deleteRecord \<Rightarrow> deleteRecord \<Rightarrow> bool" and xs
  assume "strict_weak_order_on (set xs) lt"
  then have "sorted_wrt (\<lambda>a b. \<not> lt a b) (foldl (\<lambda>sorted x. insertDown lt x sorted) [] xs)"
    using sorted_foldl_insertDown[of "set xs" lt xs "[]"] by simp
  then show "sorted_wrt (\<lambda>a b. \<not> lt b a) (insertionSort lt xs)"
    by (simp add: insertionSort_def sorted_wrt_rev)
qed


text \<open>
  The numbering loops change the index they compute and nothing else, and on a sorted slice the
  index grows exactly where the key grows.
\<close>

lemma usageCountIndexes_fields:
  "usageCountIndexes m count vs = (vs', m') \<Longrightarrow>
     map (\<lambda>v. v\<lparr>usageCountIndex := 0\<rparr>) vs' = map (\<lambda>v. v\<lparr>usageCountIndex := 0\<rparr>) vs"
  by (induction vs arbitrary: m count vs' m') (auto split: if_splits prod.splits)

lemma lastUsedIndexes_fields:
  "lastUsedIndexes m val vs = (vs', m') \<Longrightarrow>
     map (\<lambda>v. v\<lparr>lastUsedAtIndex := 0\<rparr>) vs' = map (\<lambda>v. v\<lparr>lastUsedAtIndex := 0\<rparr>) vs"
  by (induction vs arbitrary: m val vs' m') (auto split: if_splits prod.splits option.splits)

lemma map_eq_set_ex:
  assumes "map f xs = map f ys" and "x \<in> set xs"
  shows "\<exists>y\<in>set ys. f x = f y"
proof -
  have "f x \<in> set (map f xs)" using assms(2) by simp
  then have "f x \<in> set (map f ys)" using assms(1) by simp
  then show ?thesis by auto
qed

lemma usageCountIndexes_rank:
  assumes "usageCountIndexes m count vs = (vs', m')"
    and "sorted_wrt (\<lambda>a b. usageCount a \<le> usageCount b) vs"
    and "\<forall>v\<in>set vs. count \<le> usageCount v"
  shows "sorted_wrt (\<lambda>a b. usageCount a \<le> usageCount b
            \<and> (usageCount a = usageCount b \<longrightarrow> usageCountIndex a = usageCountIndex b)
            \<and> (usageCount a < usageCount b \<longrightarrow> usageCountIndex a < usageCountIndex b)) vs'
       \<and> (\<forall>v\<in>set vs'. count \<le> usageCount v \<and> m \<le> usageCountIndex v \<and> usageCountIndex v \<le> m'
            \<and> (usageCount v = count \<longrightarrow> usageCountIndex v = m)
            \<and> (count < usageCount v \<longrightarrow> m < usageCountIndex v))
       \<and> m \<le> m'"
  using assms
proof (induction vs arbitrary: m count vs' m')
  case Nil
  then show ?case by simp
next
  case (Cons v vs)
  show ?case
  proof (cases "usageCount v = count")
    case True
    obtain ws where r: "usageCountIndexes m count vs = (ws, m')"
      and vs': "vs' = v\<lparr>usageCountIndex := m\<rparr> # ws"
      using Cons.prems(1) True by (auto split: prod.splits)
    have ih: "sorted_wrt (\<lambda>a b. usageCount a \<le> usageCount b
            \<and> (usageCount a = usageCount b \<longrightarrow> usageCountIndex a = usageCountIndex b)
            \<and> (usageCount a < usageCount b \<longrightarrow> usageCountIndex a < usageCountIndex b)) ws
       \<and> (\<forall>v\<in>set ws. count \<le> usageCount v \<and> m \<le> usageCountIndex v \<and> usageCountIndex v \<le> m'
            \<and> (usageCount v = count \<longrightarrow> usageCountIndex v = m)
            \<and> (count < usageCount v \<longrightarrow> m < usageCountIndex v))
       \<and> m \<le> m'"
      using Cons.IH[OF r] Cons.prems(2,3) by simp
    show ?thesis
      unfolding vs' using ih True by auto
  next
    case False
    then have lt: "count < usageCount v" using Cons.prems(3) by force
    obtain ws where r: "usageCountIndexes (m + 1) (usageCount v) vs = (ws, m')"
      and vs': "vs' = v\<lparr>usageCountIndex := m + 1\<rparr> # ws"
      using Cons.prems(1) False by (auto split: prod.splits)
    have ih: "sorted_wrt (\<lambda>a b. usageCount a \<le> usageCount b
            \<and> (usageCount a = usageCount b \<longrightarrow> usageCountIndex a = usageCountIndex b)
            \<and> (usageCount a < usageCount b \<longrightarrow> usageCountIndex a < usageCountIndex b)) ws
       \<and> (\<forall>w\<in>set ws. usageCount v \<le> usageCount w \<and> m + 1 \<le> usageCountIndex w \<and> usageCountIndex w \<le> m'
            \<and> (usageCount w = usageCount v \<longrightarrow> usageCountIndex w = m + 1)
            \<and> (usageCount v < usageCount w \<longrightarrow> m + 1 < usageCountIndex w))
       \<and> m + 1 \<le> m'"
      using Cons.IH[OF r] Cons.prems(2) by simp
    show ?thesis
      unfolding vs' using ih lt by force
  qed
qed

text \<open>
  The key by which the first loop numbers: the time of last use, where no time and a time not
  after the zero time count as the zero time.
\<close>

definition lastUsedKey :: "deleteRecord \<Rightarrow> int" where
  "lastUsedKey v = (case lastUsedAt v of None \<Rightarrow> 0 | Some t \<Rightarrow> max 0 t)"

lemma lastUsedKey_upd [simp]: "lastUsedKey (v\<lparr>lastUsedAtIndex := k\<rparr>) = lastUsedKey v"
  "lastUsedKey (v\<lparr>usageCountIndex := k\<rparr>) = lastUsedKey v"
  by (simp_all add: lastUsedKey_def)

lemma lastUsedIndexes_rank:
  assumes "lastUsedIndexes m val vs = (vs', m')"
    and "sorted_wrt (\<lambda>a b. lastUsedKey a \<le> lastUsedKey b) vs"
    and "\<forall>v\<in>set vs. val \<le> lastUsedKey v" and "0 \<le> val"
  shows "sorted_wrt (\<lambda>a b. lastUsedKey a \<le> lastUsedKey b
            \<and> (lastUsedKey a = lastUsedKey b \<longrightarrow> lastUsedAtIndex a = lastUsedAtIndex b)
            \<and> (lastUsedKey a < lastUsedKey b \<longrightarrow> lastUsedAtIndex a < lastUsedAtIndex b)) vs'
       \<and> (\<forall>v\<in>set vs'. val \<le> lastUsedKey v \<and> m \<le> lastUsedAtIndex v \<and> lastUsedAtIndex v \<le> m'
            \<and> (lastUsedKey v = val \<longrightarrow> lastUsedAtIndex v = m)
            \<and> (val < lastUsedKey v \<longrightarrow> m < lastUsedAtIndex v))
       \<and> m \<le> m'"
  using assms
proof (induction vs arbitrary: m val vs' m')
  case Nil
  then show ?case by simp
next
  case (Cons v vs)
  have after: "(case lastUsedAt v of Some t \<Rightarrow> val < t | None \<Rightarrow> False) \<longleftrightarrow> val < lastUsedKey v"
    using Cons.prems(4) by (auto simp: lastUsedKey_def split: option.splits)
  show ?case
  proof (cases "val < lastUsedKey v")
    case False
    then have eq: "lastUsedKey v = val" using Cons.prems(3) by force
    obtain ws where r: "lastUsedIndexes m val vs = (ws, m')"
      and vs': "vs' = v\<lparr>lastUsedAtIndex := m\<rparr> # ws"
      using Cons.prems(1) False after by (auto split: prod.splits option.splits if_splits)
    have ih: "sorted_wrt (\<lambda>a b. lastUsedKey a \<le> lastUsedKey b
            \<and> (lastUsedKey a = lastUsedKey b \<longrightarrow> lastUsedAtIndex a = lastUsedAtIndex b)
            \<and> (lastUsedKey a < lastUsedKey b \<longrightarrow> lastUsedAtIndex a < lastUsedAtIndex b)) ws
       \<and> (\<forall>v\<in>set ws. val \<le> lastUsedKey v \<and> m \<le> lastUsedAtIndex v \<and> lastUsedAtIndex v \<le> m'
            \<and> (lastUsedKey v = val \<longrightarrow> lastUsedAtIndex v = m)
            \<and> (val < lastUsedKey v \<longrightarrow> m < lastUsedAtIndex v))
       \<and> m \<le> m'"
      using Cons.IH[OF r] Cons.prems(2,3,4) by simp
    show ?thesis
      unfolding vs' using ih eq by auto
  next
    case True
    then obtain t where t: "lastUsedAt v = Some t" "val < t" "lastUsedKey v = t"
      using after Cons.prems(4) by (auto simp: lastUsedKey_def split: option.splits)
    obtain ws where r: "lastUsedIndexes (m + 1) (lastUsedKey v) vs = (ws, m')"
      and vs': "vs' = v\<lparr>lastUsedAtIndex := m + 1\<rparr> # ws"
      using Cons.prems(1) t by (auto split: prod.splits)
    have ih: "sorted_wrt (\<lambda>a b. lastUsedKey a \<le> lastUsedKey b
            \<and> (lastUsedKey a = lastUsedKey b \<longrightarrow> lastUsedAtIndex a = lastUsedAtIndex b)
            \<and> (lastUsedKey a < lastUsedKey b \<longrightarrow> lastUsedAtIndex a < lastUsedAtIndex b)) ws
       \<and> (\<forall>w\<in>set ws. lastUsedKey v \<le> lastUsedKey w \<and> m + 1 \<le> lastUsedAtIndex w \<and> lastUsedAtIndex w \<le> m'
            \<and> (lastUsedKey w = lastUsedKey v \<longrightarrow> lastUsedAtIndex w = m + 1)
            \<and> (lastUsedKey v < lastUsedKey w \<longrightarrow> m + 1 < lastUsedAtIndex w))
       \<and> m + 1 \<le> m'"
      using Cons.IH[OF r] Cons.prems(2,4) t by simp
    show ?thesis
      unfolding vs' using ih True by force
  qed
qed

text \<open>Bounds of the indexes, without any assumption on the order.\<close>

lemma usageCountIndexes_bounds:
  "usageCountIndexes m count vs = (vs', m') \<Longrightarrow>
     m \<le> m' \<and> (\<forall>v\<in>set vs'. m \<le> usageCountIndex v \<and> usageCountIndex v \<le> m')"
proof (induction vs arbitrary: m count vs' m')
  case Nil
  then show ?case by simp
next
  case (Cons v vs)
  show ?case
  proof (cases "usageCount v = count")
    case True
    obtain ws where r: "usageCountIndexes m count vs = (ws, m')"
      and vs': "vs' = v\<lparr>usageCountIndex := m\<rparr> # ws"
      using Cons.prems(1) True by (auto split: prod.splits)
    show ?thesis unfolding vs' using Cons.IH[OF r] by auto
  next
    case False
    obtain ws where r: "usageCountIndexes (m + 1) (usageCount v) vs = (ws, m')"
      and vs': "vs' = v\<lparr>usageCountIndex := m + 1\<rparr> # ws"
      using Cons.prems(1) False by (auto split: prod.splits)
    show ?thesis unfolding vs' using Cons.IH[OF r] by force
  qed
qed

lemma lastUsedIndexes_bounds:
  "lastUsedIndexes m val vs = (vs', m') \<Longrightarrow>
     m \<le> m' \<and> (\<forall>v\<in>set vs'. m \<le> lastUsedAtIndex v \<and> lastUsedAtIndex v \<le> m')"
proof (induction vs arbitrary: m val vs' m')
  case Nil
  then show ?case by simp
next
  case (Cons v vs)
  show ?case
  proof (cases "case lastUsedAt v of Some t \<Rightarrow> val < t | None \<Rightarrow> False")
    case False
    obtain ws where r: "lastUsedIndexes m val vs = (ws, m')"
      and vs': "vs' = v\<lparr>lastUsedAtIndex := m\<rparr> # ws"
      using Cons.prems(1) False by (auto split: prod.splits option.splits if_splits)
    show ?thesis unfolding vs' using Cons.IH[OF r] by auto
  next
    case True
    then obtain t where t: "lastUsedAt v = Some t" "val < t"
      by (auto split: option.splits)
    obtain ws where r: "lastUsedIndexes (m + 1) t vs = (ws, m')"
      and vs': "vs' = v\<lparr>lastUsedAtIndex := m + 1\<rparr> # ws"
      using Cons.prems(1) t by (auto split: prod.splits)
    show ?thesis unfolding vs' using Cons.IH[OF r] by force
  qed
qed


lemma sorted_wrt_set_cases:
  "sorted_wrt P xs \<Longrightarrow> a \<in> set xs \<Longrightarrow> b \<in> set xs \<Longrightarrow> a = b \<or> P a b \<or> P b a"
  by (induction xs) auto

lemma swo_usageCount_less: "strict_weak_order_on A usageCount_less"
  unfolding strict_weak_order_on_def usageCount_less_def by auto

lemma swo_lastUsedAt_less:
  "\<forall>v\<in>A. lastUsedAt v \<noteq> None \<Longrightarrow> strict_weak_order_on A lastUsedAt_less"
  unfolding strict_weak_order_on_def lastUsedAt_less_def
  by (auto split: option.splits)

lemma score_NaN_left: "score 0 n v = NaN" if "lastUsedAtIndex v = 0"
  using that by (simp add: score_def float64_div_def)

lemma score_NaN_right: "score m 0 v = NaN" if "usageCountIndex v = 0"
  using that by (cases "float64_div (lastUsedAtIndex v) m") (simp_all add: score_def float64_div_def)

lemma score_Fin:
  "0 < m \<Longrightarrow> 0 < n \<Longrightarrow>
     score m n v = Fin (lastUsedAtIndex v * n + usageCountIndex v * m) (m * n)"
  by (simp add: score_def float64_div_def)

lemma score_less_Fin:
  assumes "0 < m" and "0 < n"
  shows "score_less m n a b \<longleftrightarrow>
     lastUsedAtIndex a * n + usageCountIndex a * m < lastUsedAtIndex b * n + usageCountIndex b * m"
proof -
  have "0 < m * n" using assms by simp
  then show ?thesis
    using assms by (simp add: score_less_def score_Fin)
qed

lemma swo_score_less:
  assumes "0 \<le> m" and "0 \<le> n"
    and "m = 0 \<Longrightarrow> \<forall>v\<in>A. lastUsedAtIndex v = 0"
    and "n = 0 \<Longrightarrow> \<forall>v\<in>A. usageCountIndex v = 0"
  shows "strict_weak_order_on A (score_less m n)"
proof (cases "0 < m \<and> 0 < n")
  case True
  then show ?thesis
    unfolding strict_weak_order_on_def by (auto simp: score_less_Fin)
next
  case False
  then have "\<forall>v\<in>A. score m n v = NaN"
    using assms score_NaN_left score_NaN_right by (metis order_le_less)
  then show ?thesis
    unfolding strict_weak_order_on_def score_less_def by simp
qed

lemma score_less_irrefl: "\<not> score_less m n v v"
  unfolding score_less_def by (cases "score m n v") simp_all


lemma usageCountIndexes_rank0:
  assumes "usageCountIndexes 0 0 vs = (vs', m')"
    and "sorted_wrt (\<lambda>a b. usageCount a \<le> usageCount b) vs"
  shows "sorted_wrt (\<lambda>a b. usageCount a \<le> usageCount b
            \<and> (usageCount a = usageCount b \<longrightarrow> usageCountIndex a = usageCountIndex b)
            \<and> (usageCount a < usageCount b \<longrightarrow> usageCountIndex a < usageCountIndex b)) vs'"
proof (cases vs)
  case Nil
  then show ?thesis using assms(1) by simp
next
  case (Cons v rest)
  have le: "\<forall>w\<in>set rest. usageCount v \<le> usageCount w"
    using assms(2) Cons by simp
  show ?thesis
  proof (cases "usageCount v = 0")
    case True
    then have "\<forall>w\<in>set vs. 0 \<le> usageCount w" using le Cons by auto
    then show ?thesis
      using usageCountIndexes_rank[OF assms(1) assms(2)] by simp
  next
    case False
    obtain ws where r: "usageCountIndexes 1 (usageCount v) rest = (ws, m')"
      and vs': "vs' = v\<lparr>usageCountIndex := 1\<rparr> # ws"
      using assms(1) False Cons by (auto split: prod.splits)
    have "sorted_wrt (\<lambda>a b. usageCount a \<le> usageCount b) rest"
      using assms(2) Cons by simp
    from usageCountIndexes_rank[OF r this le]
    show ?thesis unfolding vs' by force
  qed
qed

lemma rank_set:
  assumes "sorted_wrt (\<lambda>a b. (k a :: int) \<le> k b
            \<and> (k a = k b \<longrightarrow> (i a :: int) = i b) \<and> (k a < k b \<longrightarrow> i a < i b)) xs"
    and "a \<in> set xs" and "b \<in> set xs"
  shows "(k a = k b \<longrightarrow> i a = i b) \<and> (k a < k b \<longrightarrow> i a < i b)"
  using sorted_wrt_set_cases[OF assms] by force

text \<open>
  A record without its two indexes.
\<close>

definition strip :: "deleteRecord \<Rightarrow> deleteRecord" where
  "strip v = v\<lparr>lastUsedAtIndex := 0, usageCountIndex := 0\<rparr>"

lemma strip_sel [simp]:
  "cacheRecord (strip v) = cacheRecord v" "lastUsedAt (strip v) = lastUsedAt v"
  "usageCount (strip v) = usageCount v"
  by (simp_all add: strip_def)

lemma image_of_map_eq: "map f xs = map f ys \<Longrightarrow> f ` set xs = f ` set ys"
  by (metis set_map)

lemma rankDeleteRecords_unfold:
  assumes "rankDeleteRecords srt cands = (ranked, maxL, maxU)"
  obtains w1 where
    "lastUsedIndexes 0 0 (srt lastUsedAt_less cands) = (w1, maxL)"
    "usageCountIndexes 0 0 (srt usageCount_less w1) = (ranked, maxU)"
  using assms unfolding rankDeleteRecords_def Let_def
  by (auto split: prod.splits)

lemma rankDeleteRecords_strip:
  assumes s: "sorts srt" and r: "rankDeleteRecords srt cands = (ranked, maxL, maxU)"
  shows "strip ` set ranked = strip ` set cands"
proof -
  obtain w1 where
    l: "lastUsedIndexes 0 0 (srt lastUsedAt_less cands) = (w1, maxL)" and
    u: "usageCountIndexes 0 0 (srt usageCount_less w1) = (ranked, maxU)"
    using r by (rule rankDeleteRecords_unfold)
  let ?L = "\<lambda>v::deleteRecord. v\<lparr>lastUsedAtIndex := 0\<rparr>"
  let ?U = "\<lambda>v::deleteRecord. v\<lparr>usageCountIndex := 0\<rparr>"
  have sL: "strip v = ?L (?U v)" and sU: "strip v = ?U (?L v)" for v
    by (simp_all add: strip_def)
  have 1: "?L ` set w1 = ?L ` set cands"
    using image_of_map_eq[OF lastUsedIndexes_fields[OF l]] sorts_set[OF s] by simp
  have 2: "?U ` set ranked = ?U ` set w1"
    using image_of_map_eq[OF usageCountIndexes_fields[OF u]] sorts_set[OF s] by simp
  have "strip ` set ranked = ?L ` (?U ` set ranked)"
    by (simp add: image_image sL)
  also have "\<dots> = ?L ` (?U ` set w1)" using 2 by simp
  also have "\<dots> = ?U ` (?L ` set w1)" by (simp add: image_image sL[symmetric] sU[symmetric])
  also have "\<dots> = ?U ` (?L ` set cands)" using 1 by simp
  also have "\<dots> = strip ` set cands" by (simp add: image_image sU)
  finally show ?thesis .
qed

lemma rankDeleteRecords_ranks:
  assumes s: "sorts srt" and r: "rankDeleteRecords srt cands = (ranked, maxL, maxU)"
  shows "0 \<le> maxL" and "0 \<le> maxU"
    and "\<forall>v\<in>set ranked. 0 \<le> lastUsedAtIndex v \<and> lastUsedAtIndex v \<le> maxL
            \<and> 0 \<le> usageCountIndex v \<and> usageCountIndex v \<le> maxU"
    and "\<forall>a\<in>set ranked. \<forall>b\<in>set ranked.
           (usageCount a = usageCount b \<longrightarrow> usageCountIndex a = usageCountIndex b)
           \<and> (usageCount a < usageCount b \<longrightarrow> usageCountIndex a < usageCountIndex b)"
    and "(\<forall>c\<in>set cands. lastUsedAt c \<noteq> None) \<longrightarrow>
         (\<forall>a\<in>set ranked. \<forall>b\<in>set ranked.
           (lastUsedKey a = lastUsedKey b \<longrightarrow> lastUsedAtIndex a = lastUsedAtIndex b)
           \<and> (lastUsedKey a < lastUsedKey b \<longrightarrow> lastUsedAtIndex a < lastUsedAtIndex b))"
proof -
  obtain w1 where
    l: "lastUsedIndexes 0 0 (srt lastUsedAt_less cands) = (w1, maxL)" and
    u: "usageCountIndexes 0 0 (srt usageCount_less w1) = (ranked, maxU)"
    using r by (rule rankDeleteRecords_unfold)
  let ?s2 = "srt usageCount_less w1"
  let ?U = "\<lambda>v::deleteRecord. v\<lparr>usageCountIndex := 0\<rparr>"
  have lb: "0 \<le> maxL" "\<forall>v\<in>set w1. 0 \<le> lastUsedAtIndex v \<and> lastUsedAtIndex v \<le> maxL"
    using lastUsedIndexes_bounds[OF l] by auto
  have ub: "0 \<le> maxU" "\<forall>v\<in>set ranked. 0 \<le> usageCountIndex v \<and> usageCountIndex v \<le> maxU"
    using usageCountIndexes_bounds[OF u] by auto
  have orig: "\<exists>w\<in>set w1. lastUsedAtIndex v = lastUsedAtIndex w \<and> lastUsedAt v = lastUsedAt w"
    if v: "v \<in> set ranked" for v
  proof -
    obtain w where w: "w \<in> set ?s2" "?U v = ?U w"
      using map_eq_set_ex[OF usageCountIndexes_fields[OF u] v] by auto
    have "lastUsedAtIndex (?U v) = lastUsedAtIndex (?U w)" "lastUsedAt (?U v) = lastUsedAt (?U w)"
      using w(2) by simp_all
    then have "lastUsedAtIndex v = lastUsedAtIndex w \<and> lastUsedAt v = lastUsedAt w" by simp
    moreover have "w \<in> set w1" using w(1) sorts_set[OF s] by simp
    ultimately show ?thesis by blast
  qed
  show "0 \<le> maxL" by (rule lb(1))
  show "0 \<le> maxU" by (rule ub(1))
  show "\<forall>v\<in>set ranked. 0 \<le> lastUsedAtIndex v \<and> lastUsedAtIndex v \<le> maxL
            \<and> 0 \<le> usageCountIndex v \<and> usageCountIndex v \<le> maxU"
  proof
    fix v assume v: "v \<in> set ranked"
    obtain w where "w \<in> set w1" "lastUsedAtIndex v = lastUsedAtIndex w"
      using orig[OF v] by blast
    then show "0 \<le> lastUsedAtIndex v \<and> lastUsedAtIndex v \<le> maxL
            \<and> 0 \<le> usageCountIndex v \<and> usageCountIndex v \<le> maxU"
      using lb(2) ub(2) v by simp
  qed
  have "sorted_wrt (\<lambda>a b. \<not> usageCount_less b a) ?s2"
    using sorts_sorted[OF s swo_usageCount_less] .
  then have "sorted_wrt (\<lambda>a b. usageCount a \<le> usageCount b) ?s2"
    by (simp add: usageCount_less_def not_less)
  from usageCountIndexes_rank0[OF u this]
  show "\<forall>a\<in>set ranked. \<forall>b\<in>set ranked.
           (usageCount a = usageCount b \<longrightarrow> usageCountIndex a = usageCountIndex b)
           \<and> (usageCount a < usageCount b \<longrightarrow> usageCountIndex a < usageCountIndex b)"
    using rank_set[where k = usageCount and i = usageCountIndex] by blast
  show "(\<forall>c\<in>set cands. lastUsedAt c \<noteq> None) \<longrightarrow>
         (\<forall>a\<in>set ranked. \<forall>b\<in>set ranked.
           (lastUsedKey a = lastUsedKey b \<longrightarrow> lastUsedAtIndex a = lastUsedAtIndex b)
           \<and> (lastUsedKey a < lastUsedKey b \<longrightarrow> lastUsedAtIndex a < lastUsedAtIndex b))"
  proof (intro impI ballI)
    fix a b
    assume nn: "\<forall>c\<in>set cands. lastUsedAt c \<noteq> None" and a: "a \<in> set ranked" and b: "b \<in> set ranked"
    let ?s1 = "srt lastUsedAt_less cands"
    have "sorted_wrt (\<lambda>a b. \<not> lastUsedAt_less b a) ?s1"
      using sorts_sorted[OF s swo_lastUsedAt_less[OF nn]] .
    moreover have "\<not> lastUsedAt_less y x \<Longrightarrow> lastUsedKey x \<le> lastUsedKey y" for x y
      by (auto simp: lastUsedAt_less_def lastUsedKey_def split: option.splits)
    ultimately have "sorted_wrt (\<lambda>a b. lastUsedKey a \<le> lastUsedKey b) ?s1"
      by (rule sorted_wrt_mono_rel[rotated]) simp
    moreover have "\<forall>v\<in>set ?s1. 0 \<le> lastUsedKey v"
      by (auto simp: lastUsedKey_def split: option.splits)
    ultimately have srt1: "sorted_wrt (\<lambda>a b. lastUsedKey a \<le> lastUsedKey b
            \<and> (lastUsedKey a = lastUsedKey b \<longrightarrow> lastUsedAtIndex a = lastUsedAtIndex b)
            \<and> (lastUsedKey a < lastUsedKey b \<longrightarrow> lastUsedAtIndex a < lastUsedAtIndex b)) w1"
      using lastUsedIndexes_rank[OF l] by simp
    obtain a1 where a1: "a1 \<in> set w1" "lastUsedAtIndex a = lastUsedAtIndex a1" "lastUsedAt a = lastUsedAt a1"
      using orig[OF a] by blast
    obtain b1 where b1: "b1 \<in> set w1" "lastUsedAtIndex b = lastUsedAtIndex b1" "lastUsedAt b = lastUsedAt b1"
      using orig[OF b] by blast
    have "lastUsedKey a = lastUsedKey a1" "lastUsedKey b = lastUsedKey b1"
      using a1 b1 by (simp_all add: lastUsedKey_def)
    then show "(lastUsedKey a = lastUsedKey b \<longrightarrow> lastUsedAtIndex a = lastUsedAtIndex b)
           \<and> (lastUsedKey a < lastUsedKey b \<longrightarrow> lastUsedAtIndex a < lastUsedAtIndex b)"
      using rank_set[OF srt1 a1(1) b1(1)] a1(2) b1(2) by simp
  qed
qed

lemma sortDeleteRecords_victim:
  assumes s: "sorts srt" and r: "rankDeleteRecords srt cands = (ranked, maxL, maxU)"
  shows "set (sortDeleteRecords srt cands) = set ranked"
    and "\<forall>c\<in>set ranked. \<not> score_less maxL maxU c (hd (sortDeleteRecords srt cands))"
proof -
  have sd: "sortDeleteRecords srt cands = srt (score_less maxL maxU) ranked"
    using r by (simp add: sortDeleteRecords_def)
  show "set (sortDeleteRecords srt cands) = set ranked"
    unfolding sd using sorts_set[OF s] by simp
  have b: "\<forall>v\<in>set ranked. 0 \<le> lastUsedAtIndex v \<and> lastUsedAtIndex v \<le> maxL
            \<and> 0 \<le> usageCountIndex v \<and> usageCountIndex v \<le> maxU"
    using rankDeleteRecords_ranks(3)[OF s r] .
  have "strict_weak_order_on (set ranked) (score_less maxL maxU)"
    using rankDeleteRecords_ranks(1,2)[OF s r] b
    by (intro swo_score_less) force+
  then have "sorted_wrt (\<lambda>a b. \<not> score_less maxL maxU b a) (srt (score_less maxL maxU) ranked)"
    using sorts_sorted[OF s] by blast
  then show "\<forall>c\<in>set ranked. \<not> score_less maxL maxU c (hd (sortDeleteRecords srt cands))"
    unfolding sd using sorted_hd_minimal[where lt = "score_less maxL maxU"] score_less_irrefl
      sorts_set[OF s, of "score_less maxL maxU" ranked]
    by blast
qed


text \<open>
  Two invariants of the store. \<open>finalized\<close>: no record that is a parent has a mutable twin
  (\<^verbatim>\<open>New\<close>, \<^verbatim>\<open>GetByBlob\<close> and \<^verbatim>\<open>Merge\<close> finalize a parent before they take a reference on it, and
  \<^verbatim>\<open>finalize\<close> sets \<^verbatim>\<open>equalMutable\<close> to nil). \<open>twins\<close>: a record named as \<^verbatim>\<open>equalImmutable\<close> names the
  other as its \<^verbatim>\<open>equalMutable\<close> (\<^verbatim>\<open>commit\<close> and \<^verbatim>\<open>getRecord\<close> set the two fields together).
  \<open>sameShape\<close> and \<open>sameDead\<close> relate two stores whose records have the same parents and twins, and
  the same \<^verbatim>\<open>dead\<close> flags.
\<close>

definition finalized :: "pruneStore \<Rightarrow> bool" where
  "finalized cm \<longleftrightarrow>
     (\<forall>c. \<forall>p\<in>set (parentRefs (objs cm c)). equalMutable (objs cm (fst p)) = None)"

definition twins :: "pruneStore \<Rightarrow> bool" where
  "twins cm \<longleftrightarrow>
     (\<forall>m i. equalImmutable (objs cm m) = Some i \<longrightarrow> (\<exists>h. equalMutable (objs cm i) = Some (m, h)))"

definition shape :: "recordState \<Rightarrow> (string \<times> handle) list \<times> (string \<times> handle) option \<times> string option" where
  "shape r = (parentRefs r, equalMutable r, equalImmutable r)"

definition sameShape :: "pruneStore \<Rightarrow> pruneStore \<Rightarrow> bool" where
  "sameShape cm cm' \<longleftrightarrow> (\<forall>c. shape (objs cm' c) = shape (objs cm c))"

definition sameDead :: "pruneStore \<Rightarrow> pruneStore \<Rightarrow> bool" where
  "sameDead cm cm' \<longleftrightarrow> (\<forall>c. dead (objs cm' c) = dead (objs cm c))"

lemma sameShape_refl [simp]: "sameShape cm cm"
  by (simp add: sameShape_def)

lemma sameDead_refl [simp]: "sameDead cm cm"
  by (simp add: sameDead_def)

lemma sameShape_trans: "sameShape a b \<Longrightarrow> sameShape b c \<Longrightarrow> sameShape a c"
  by (simp add: sameShape_def)

lemma sameDead_trans: "sameDead a b \<Longrightarrow> sameDead b c \<Longrightarrow> sameDead a c"
  by (simp add: sameDead_def)

lemma sameShape_sel:
  assumes "sameShape cm cm'"
  shows "parentRefs (objs cm' c) = parentRefs (objs cm c)"
    and "equalMutable (objs cm' c) = equalMutable (objs cm c)"
    and "equalImmutable (objs cm' c) = equalImmutable (objs cm c)"
  using assms unfolding sameShape_def shape_def by (metis prod.inject)+

lemma sameShape_finalized: "sameShape cm cm' \<Longrightarrow> finalized cm \<Longrightarrow> finalized cm'"
  unfolding finalized_def by (simp add: sameShape_sel)

lemma sameShape_twins: "sameShape cm cm' \<Longrightarrow> twins cm \<Longrightarrow> twins cm'"
  unfolding twins_def by (simp add: sameShape_sel)

lemma upd_records [simp]: "records (upd c f cm) = records cm"
  by (simp add: upd_def)

lemma upd_objs: "objs (upd c f cm) x = (if x = c then f (objs cm c) else objs cm x)"
  by (simp add: upd_def)

lemma upd_sameShape:
  "(\<And>r. shape (f r) = shape r) \<Longrightarrow> sameShape cm (upd c f cm)"
  by (simp add: sameShape_def upd_objs)

lemma upd_sameDead:
  "(\<And>r. dead (f r) = dead r) \<Longrightarrow> sameDead cm (upd c f cm)"
  by (simp add: sameDead_def upd_objs)

lemma touchLastUsed_props:
  "records (touchLastUsed env p h cm) = records cm"
  "sameShape cm (touchLastUsed env p h cm)"
  "sameDead cm (touchLastUsed env p h cm)"
  "refs (objs (touchLastUsed env p h cm) x) = refs (objs cm x)"
  by (auto simp: touchLastUsed_def Let_def sameShape_def sameDead_def upd_objs shape_def
      split: option.splits)

lemma immutableRef_release_finalized:
  assumes "equalMutable (objs cm (fst sr)) = None"
  shows "\<exists>e cm'. immutableRef_release rm env sr cm = Some (e, cm')
           \<and> records cm' = records cm \<and> sameShape cm cm' \<and> sameDead cm cm'"
proof -
  obtain p h where sr: "sr = (p, h)" by (cases sr)
  let ?cm1 = "upd p (\<lambda>r. r\<lparr>refs := removeAll h (refs r)\<rparr>) cm"
  let ?cm2 = "touchLastUsed env p h ?cm1"
  have s1: "sameShape cm ?cm1" "sameDead cm ?cm1"
    by (simp_all add: upd_sameShape upd_sameDead shape_def)
  have s2: "sameShape cm ?cm2" "sameDead cm ?cm2"
    using s1 touchLastUsed_props(2,3)[of ?cm1 env p h] sameShape_trans sameDead_trans by blast+
  have em: "equalMutable (objs ?cm2 p) = None"
    using assms sr sameShape_sel(2)[OF s2(1)] by simp
  have r2: "records ?cm2 = records cm"
    by (simp add: touchLastUsed_props(1))
  show ?thesis
    unfolding sr immutableRef_release_def Let_def
    using em r2 s2 by simp
qed

lemma parentRefs_release_finalized:
  "\<forall>p\<in>set ps. equalMutable (objs cm (fst p)) = None \<Longrightarrow>
     \<exists>e cm'. parentRefs_release rm env ps cm = Some (e, cm')
           \<and> records cm' = records cm \<and> sameShape cm cm' \<and> sameDead cm cm'"
proof (induction ps arbitrary: cm)
  case Nil
  then show ?case by simp
next
  case (Cons p ps)
  have em: "equalMutable (objs cm (fst p)) = None"
    using Cons.prems by simp
  from immutableRef_release_finalized[OF em, of rm env]
  obtain e cm1 where 1: "immutableRef_release rm env p cm = Some (e, cm1)"
    "records cm1 = records cm" "sameShape cm cm1" "sameDead cm cm1"
    by blast
  have "\<forall>q\<in>set ps. equalMutable (objs cm1 (fst q)) = None"
    using Cons.prems sameShape_sel(2)[OF 1(3)] by simp
  from Cons.IH[OF this]
  obtain e' cm2 where 2: "parentRefs_release rm env ps cm1 = Some (e', cm2)"
    "records cm2 = records cm1" "sameShape cm1 cm2" "sameDead cm1 cm2"
    by blast
  have "parentRefs_release rm env (p # ps) cm = Some (firstError e e', cm2)"
    using 1(1) 2(1) by simp
  moreover have "records cm2 = records cm"
    using 1(2) 2(2) by simp
  moreover have "sameShape cm cm2"
    by (rule sameShape_trans[OF 1(3) 2(3)])
  moreover have "sameDead cm cm2"
    by (rule sameDead_trans[OF 1(4) 2(4)])
  ultimately show ?case by blast
qed

lemma remove_Suc:
  "remove (Suc n) env c removeSnapshot cm =
     (let cm1 = cm\<lparr>records := filter (\<lambda>k. k \<noteq> c) (records cm)\<rparr> in
      if removeSnapshot \<and> leaseDelete env c \<noteq> None then Some (leaseDelete env c, cm1)
      else if MetadataStore_Clear env c \<noteq> None then Some (MetadataStore_Clear env c, cm1)
      else parentRefs_release (remove n env) env (parentRefs (objs cm1 c)) cm1)"
  unfolding remove.simps by (rule refl)

lemma remove_finalized:
  assumes "finalized cm"
  shows "\<exists>e cm'. remove (Suc n) env c removeSnapshot cm = Some (e, cm')
           \<and> records cm' = filter (\<lambda>k. k \<noteq> c) (records cm)
           \<and> sameShape cm cm' \<and> sameDead cm cm'"
proof -
  define cm1 where "cm1 = cm\<lparr>records := filter (\<lambda>k. k \<noteq> c) (records cm)\<rparr>"
  have s1: "sameShape cm cm1" "sameDead cm cm1" "records cm1 = filter (\<lambda>k. k \<noteq> c) (records cm)"
    and o1: "objs cm1 = objs cm"
    by (simp_all add: sameShape_def sameDead_def cm1_def)
  have rm: "remove (Suc n) env c removeSnapshot cm =
     (if removeSnapshot \<and> leaseDelete env c \<noteq> None then Some (leaseDelete env c, cm1)
      else if MetadataStore_Clear env c \<noteq> None then Some (MetadataStore_Clear env c, cm1)
      else parentRefs_release (remove n env) env (parentRefs (objs cm1 c)) cm1)"
    unfolding remove_Suc cm1_def Let_def by (rule refl)
  have "\<forall>p\<in>set (parentRefs (objs cm1 c)). equalMutable (objs cm1 (fst p)) = None"
    using assms unfolding finalized_def o1 by simp
  from parentRefs_release_finalized[OF this, of "remove n env" env]
  obtain e cm' where 2: "parentRefs_release (remove n env) env (parentRefs (objs cm1 c)) cm1 = Some (e, cm')"
    "records cm' = records cm1" "sameShape cm1 cm'" "sameDead cm1 cm'"
    by blast
  have 3: "records cm' = filter (\<lambda>k. k \<noteq> c) (records cm)" "sameShape cm cm'" "sameDead cm cm'"
    using 2(2) s1(3) sameShape_trans[OF s1(1) 2(3)] sameDead_trans[OF s1(2) 2(4)] by simp_all
  consider (lease) "removeSnapshot \<and> leaseDelete env c \<noteq> None"
    | (clear) "\<not> (removeSnapshot \<and> leaseDelete env c \<noteq> None)" "MetadataStore_Clear env c \<noteq> None"
    | (release) "\<not> (removeSnapshot \<and> leaseDelete env c \<noteq> None)" "MetadataStore_Clear env c = None"
    by blast
  then show ?thesis
  proof cases
    case lease
    then have "remove (Suc n) env c removeSnapshot cm = Some (leaseDelete env c, cm1)"
      unfolding rm by auto
    then show ?thesis using s1 by blast
  next
    case clear
    then have "remove (Suc n) env c removeSnapshot cm = Some (MetadataStore_Clear env c, cm1)"
      unfolding rm by auto
    then show ?thesis using s1 by blast
  next
    case release
    then have "remove (Suc n) env c removeSnapshot cm = Some (e, cm')"
      unfolding rm using 2(1) by auto
    then show ?thesis using 3 by blast
  qed
qed


text \<open>
  The tests a record passes to be collected, apart from the lock.
\<close>

definition candidate :: "pruneOpt \<Rightarrow> int \<Rightarrow> pruneStore \<Rightarrow> string \<Rightarrow> bool" where
  "candidate opt cutOff cm c \<longleftrightarrow> \<not> duplicate cm c \<and> \<not> isDead cm c \<and> prunable opt cutOff cm c"

lemma collect_step:
  "collect env opt cutOff (c # cs) toDelete locked cm =
     (if mu (objs cm c) \<in> set locked \<or> \<not> candidate opt cutOff cm c
      then collect env opt cutOff cs toDelete locked cm
      else if \<not> gcMode opt
      then (case commitMetadata env c of
              Some err \<Rightarrow> (Some err, toDelete @ [newDeleteRecord cm c], upd c (\<lambda>r. r\<lparr>dead := True\<rparr>) cm)
            | None \<Rightarrow> collect env opt cutOff cs (toDelete @ [newDeleteRecord cm c]) locked
                        (upd c (\<lambda>r. r\<lparr>dead := True\<rparr>) cm))
      else collect env opt cutOff cs (toDelete @ [newDeleteRecord cm c]) (mu (objs cm c) # locked) cm)"
  by (simp add: candidate_def Let_def)

lemma collect_general:
  "collect env opt cutOff cs toDelete locked cm = (e, toDelete', cm') \<Longrightarrow>
     records cm' = records cm \<and> sameShape cm cm'
     \<and> (\<exists>new. toDelete' = toDelete @ new \<and> cacheRecord ` set new \<subseteq> set cs
            \<and> (new = [] \<longrightarrow> cm' = cm \<and> e = None))"
proof (induction cs arbitrary: toDelete locked cm)
  case Nil
  then show ?case by simp
next
  case (Cons c cs)
  let ?cm1 = "upd c (\<lambda>r. r\<lparr>dead := True\<rparr>) cm"
  let ?d = "newDeleteRecord cm c"
  have s1: "sameShape cm ?cm1" "records ?cm1 = records cm"
    by (simp_all add: upd_sameShape shape_def)
  have cd: "cacheRecord ?d = c" by (simp add: newDeleteRecord_def)
  consider (skip) "mu (objs cm c) \<in> set locked \<or> \<not> candidate opt cutOff cm c"
    | (err) err where "\<not> (mu (objs cm c) \<in> set locked \<or> \<not> candidate opt cutOff cm c)"
        "\<not> gcMode opt" "commitMetadata env c = Some err"
    | (mark) "\<not> (mu (objs cm c) \<in> set locked \<or> \<not> candidate opt cutOff cm c)"
        "\<not> gcMode opt" "commitMetadata env c = None"
    | (gc) "\<not> (mu (objs cm c) \<in> set locked \<or> \<not> candidate opt cutOff cm c)" "gcMode opt"
    by (cases "commitMetadata env c") auto
  then show ?case
  proof cases
    case skip
    then have "collect env opt cutOff cs toDelete locked cm = (e, toDelete', cm')"
      using Cons.prems unfolding collect_step by simp
    from Cons.IH[OF this] show ?thesis by auto
  next
    case err
    then have "e = Some err" "toDelete' = toDelete @ [?d]" "cm' = ?cm1"
      using Cons.prems unfolding collect_step by simp_all
    then show ?thesis using s1 cd by simp
  next
    case mark
    then have "collect env opt cutOff cs (toDelete @ [?d]) locked ?cm1 = (e, toDelete', cm')"
      using Cons.prems unfolding collect_step by simp
    from Cons.IH[OF this]
    obtain new where n: "records cm' = records ?cm1" "sameShape ?cm1 cm'"
      "toDelete' = (toDelete @ [?d]) @ new" "cacheRecord ` set new \<subseteq> set cs"
      by blast
    have "toDelete' = toDelete @ (?d # new)" "cacheRecord ` set (?d # new) \<subseteq> set (c # cs)"
      using n(3,4) cd by auto
    moreover have "records cm' = records cm" using n(1) s1(2) by simp
    moreover have "sameShape cm cm'" by (rule sameShape_trans[OF s1(1) n(2)])
    ultimately show ?thesis by blast
  next
    case gc
    then have "collect env opt cutOff cs (toDelete @ [?d]) (mu (objs cm c) # locked) cm = (e, toDelete', cm')"
      using Cons.prems unfolding collect_step by simp
    from Cons.IH[OF this]
    obtain new where n: "records cm' = records cm" "sameShape cm cm'"
      "toDelete' = (toDelete @ [?d]) @ new" "cacheRecord ` set new \<subseteq> set cs"
      by blast
    have "toDelete' = toDelete @ (?d # new)" "cacheRecord ` set (?d # new) \<subseteq> set (c # cs)"
      using n(3,4) cd by auto
    then show ?thesis using n(1,2) by blast
  qed
qed


lemma candidate_totalSize:
  "candidate (opt\<lparr>totalSize := t\<rparr>) cutOff cm c = candidate opt cutOff cm c"
  by (simp add: candidate_def prunable_def usageInfoOf_def)

lemma collect_totalSize:
  "collect env (opt\<lparr>totalSize := t\<rparr>) cutOff cs toDelete locked cm
     = collect env opt cutOff cs toDelete locked cm"
proof (induction cs arbitrary: toDelete locked cm)
  case Nil
  then show ?case by simp
next
  case (Cons c cs)
  show ?case
    unfolding collect_step candidate_totalSize
    by (simp add: Cons.IH gcMode_def split: option.splits)
qed

lemma calcSizes_props:
  "calcSizes env ds cm = (e, cm') \<Longrightarrow>
     records cm' = records cm \<and> sameShape cm cm' \<and> sameDead cm cm'"
proof (induction ds arbitrary: cm)
  case Nil
  then show ?case by simp
next
  case (Cons d ds)
  let ?c = "cacheRecord d"
  consider (known) "sizeOf env cm ?c \<noteq> sizeUnknown env"
    | (err) err where "sizeOf env cm ?c = sizeUnknown env" "size_call env ?c = Inl err"
    | (dead) "sizeOf env cm ?c = sizeUnknown env" "size_call env ?c = Inr None"
    | (sized) s where "sizeOf env cm ?c = sizeUnknown env" "size_call env ?c = Inr (Some s)"
    by (cases "size_call env ?c"; cases "projr (size_call env ?c)") auto
  then show ?case
  proof cases
    case known
    then have "calcSizes env ds cm = (e, cm')" using Cons.prems by simp
    from Cons.IH[OF this] show ?thesis .
  next
    case err
    then have "cm' = cm" using Cons.prems by simp
    then show ?thesis by simp
  next
    case dead
    then have "calcSizes env ds cm = (e, cm')" using Cons.prems by simp
    from Cons.IH[OF this] show ?thesis .
  next
    case sized
    let ?cm1 = "upd ?c (\<lambda>r. r\<lparr>getSize := s\<rparr>) cm"
    have s1: "sameShape cm ?cm1" "sameDead cm ?cm1" "records ?cm1 = records cm"
      by (simp_all add: upd_sameShape upd_sameDead shape_def)
    have "calcSizes env ds ?cm1 = (e, cm')" using Cons.prems sized by simp
    from Cons.IH[OF this] show ?thesis
      using s1 sameShape_trans sameDead_trans by metis
  qed
qed


text \<open>
  The keys that the last loop deletes from \<^verbatim>\<open>cm.records\<close>: the records of \<^verbatim>\<open>toDelete\<close> and their
  immutable twins.
\<close>

definition doomed :: "pruneStore \<Rightarrow> deleteRecord list \<Rightarrow> string set" where
  "doomed cm ds =
     cacheRecord ` set ds \<union> {i. \<exists>d\<in>set ds. equalImmutable (objs cm (cacheRecord d)) = Some i}"

lemma doomed_Cons:
  "doomed cm (d # ds) =
     insert (cacheRecord d) ({i. equalImmutable (objs cm (cacheRecord d)) = Some i} \<union> doomed cm ds)"
  by (auto simp: doomed_def)

lemma doomed_sameShape: "sameShape cm cm' \<Longrightarrow> doomed cm' ds = doomed cm ds"
  by (simp add: doomed_def sameShape_sel)

lemma deleteAll_Cons:
  "deleteAll n env (cr # crs) err cm tsize ch =
     (case (case equalImmutable (objs cm (cacheRecord cr)) of
              Some i \<Rightarrow> remove n env i False cm
            | None \<Rightarrow> Some (None, cm)) of
        None \<Rightarrow> None
      | Some (err1, cm1) \<Rightarrow>
          (case remove n env (cacheRecord cr) True cm1 of
             None \<Rightarrow> None
           | Some (err2, cm2) \<Rightarrow>
               deleteAll n env crs (firstError (firstError err err1) err2) cm2
                 (tsize - sizeOf env cm (cacheRecord cr))
                 (if firstError (firstError err err1) err2 = None then ch @ [cacheRecord cr] else ch)))"
  unfolding deleteAll.simps Let_def by (rule refl)

lemma deleteAll_finalized:
  "finalized cm \<Longrightarrow>
     \<exists>e cm' t' ch'. deleteAll (Suc n) env ds err cm tsize ch = Some (e, cm', t', ch')
        \<and> sameShape cm cm' \<and> sameDead cm cm'
        \<and> records cm' = filter (\<lambda>k. k \<notin> doomed cm ds) (records cm)"
proof (induction ds arbitrary: err cm tsize ch)
  case Nil
  then show ?case by (simp add: doomed_def)
next
  case (Cons d ds)
  let ?c = "cacheRecord d"
  let ?twin = "case equalImmutable (objs cm ?c) of
                 Some i \<Rightarrow> remove (Suc n) env i False cm
               | None \<Rightarrow> Some (None, cm)"
  have "\<exists>e1 cm1. ?twin = Some (e1, cm1) \<and> sameShape cm cm1 \<and> sameDead cm cm1
          \<and> records cm1 = filter (\<lambda>k. k \<notin> {i. equalImmutable (objs cm ?c) = Some i}) (records cm)"
  proof (cases "equalImmutable (objs cm ?c)")
    case None
    then show ?thesis by simp
  next
    case (Some i)
    from remove_finalized[OF Cons.prems, of n env i False]
    show ?thesis using Some by auto
  qed
  then obtain e1 cm1 where 1: "?twin = Some (e1, cm1)" "sameShape cm cm1" "sameDead cm cm1"
    "records cm1 = filter (\<lambda>k. k \<notin> {i. equalImmutable (objs cm ?c) = Some i}) (records cm)"
    by blast
  have f1: "finalized cm1" by (rule sameShape_finalized[OF 1(2) Cons.prems])
  from remove_finalized[OF f1, of n env ?c True]
  obtain e2 cm2 where 2: "remove (Suc n) env ?c True cm1 = Some (e2, cm2)"
    "records cm2 = filter (\<lambda>k. k \<noteq> ?c) (records cm1)" "sameShape cm1 cm2" "sameDead cm1 cm2"
    by blast
  have s2: "sameShape cm cm2" "sameDead cm cm2"
    using sameShape_trans[OF 1(2) 2(3)] sameDead_trans[OF 1(3) 2(4)] by simp_all
  have f2: "finalized cm2" by (rule sameShape_finalized[OF s2(1) Cons.prems])
  let ?err = "firstError (firstError err e1) e2"
  let ?t = "tsize - sizeOf env cm ?c"
  let ?ch = "if ?err = None then ch @ [?c] else ch"
  from Cons.IH[OF f2, of ?err ?t ?ch]
  obtain e cm' t' ch' where 3: "deleteAll (Suc n) env ds ?err cm2 ?t ?ch = Some (e, cm', t', ch')"
    "sameShape cm2 cm'" "sameDead cm2 cm'"
    "records cm' = filter (\<lambda>k. k \<notin> doomed cm2 ds) (records cm2)"
    by blast
  have "deleteAll (Suc n) env (d # ds) err cm tsize ch = Some (e, cm', t', ch')"
    unfolding deleteAll_Cons using 1(1) 2(1) 3(1) by simp
  moreover have "sameShape cm cm'" "sameDead cm cm'"
    using sameShape_trans[OF s2(1) 3(2)] sameDead_trans[OF s2(2) 3(3)] by simp_all
  moreover have "records cm' = filter (\<lambda>k. k \<notin> doomed cm (d # ds)) (records cm)"
    unfolding 3(4) 2(2) 1(4) doomed_sameShape[OF s2(1)] doomed_Cons
    by (auto intro: filter_cong)
  ultimately show ?case by blast
qed

lemma filter_shorter:
  "x \<in> set xs \<Longrightarrow> \<not> P x \<Longrightarrow> length (filter P xs) < length xs"
  by (metis filter_id_conv length_filter_le order_le_imp_less_or_eq length_filter_less)

lemma deleteRecords_finalized:
  assumes "finalized cm"
  shows "\<exists>r. deleteRecords (Suc n) env pass ds cm tsize ch = Some r \<and>
     (case r of
        Inl (e, cm', t', ch') \<Rightarrow> e \<noteq> None \<and> sameShape cm cm' \<and> sameDead cm cm'
          \<and> (records cm' = records cm
               \<or> records cm' = filter (\<lambda>k. k \<notin> doomed cm ds) (records cm))
      | Inr (cm', t', ch') \<Rightarrow> sameShape cm cm' \<and> sameDead cm cm'
          \<and> records cm' = filter (\<lambda>k. k \<notin> doomed cm ds) (records cm))"
proof -
  obtain e1 cm1 where c: "calcSizes env ds cm = (e1, cm1)"
    by (cases "calcSizes env ds cm") auto
  have 1: "records cm1 = records cm" "sameShape cm cm1" "sameDead cm cm1"
    using calcSizes_props[OF c] by simp_all
  show ?thesis
  proof (cases e1)
    case (Some err)
    then show ?thesis
      using c 1 by (simp add: deleteRecords_def)
  next
    case None
    have f1: "finalized cm1" by (rule sameShape_finalized[OF 1(2) assms])
    from deleteAll_finalized[OF f1, of n env ds None tsize ch]
    obtain e cm' t' ch' where 2: "deleteAll (Suc n) env ds None cm1 tsize ch = Some (e, cm', t', ch')"
      "sameShape cm1 cm'" "sameDead cm1 cm'"
      "records cm' = filter (\<lambda>k. k \<notin> doomed cm1 ds) (records cm1)"
      by blast
    have 3: "sameShape cm cm'" "sameDead cm cm'"
      "records cm' = filter (\<lambda>k. k \<notin> doomed cm ds) (records cm)"
      using sameShape_trans[OF 1(2) 2(2)] sameDead_trans[OF 1(3) 2(3)] 2(4) 1(1)
        doomed_sameShape[OF 1(2)] by simp_all
    show ?thesis
    proof (cases e)
      case (Some err)
      then show ?thesis
        using c None 2(1) 3 by (simp add: deleteRecords_def)
    next
      case eN: None
      then show ?thesis
        using c None 2(1) 3 by (simp add: deleteRecords_def)
    qed
  qed
qed


text \<open>
  \<^verbatim>\<open>toDelete\<close> after the first loop of the pass, and the store and the error of the result of a
  pass.
\<close>

definition candidates :: "pruneEnv \<Rightarrow> pruneOpt \<Rightarrow> nat \<Rightarrow> pruneStore \<Rightarrow> deleteRecord list" where
  "candidates env opt pass cm =
     fst (snd (collect env opt (time_Now env pass - keepDuration opt) (records cm) [] [] cm))"

definition passStore ::
  "(error option \<times> pruneStore \<times> int \<times> string list) + (pruneStore \<times> int \<times> string list) \<Rightarrow> pruneStore" where
  "passStore r = (case r of Inl (e, cm', t, ch) \<Rightarrow> cm' | Inr (cm', t, ch) \<Rightarrow> cm')"


lemma candidates_totalSize:
  "candidates env (opt\<lparr>totalSize := t\<rparr>) pass cm = candidates env opt pass cm"
  by (simp add: candidates_def collect_totalSize)

lemma sortDeleteRecords_nonempty:
  assumes s: "sorts srt" and ne: "cands \<noteq> []"
  shows "sortDeleteRecords srt cands \<noteq> []"
    and "cacheRecord ` set (sortDeleteRecords srt cands) = cacheRecord ` set cands"
proof -
  obtain ranked maxL maxU where r: "rankDeleteRecords srt cands = (ranked, maxL, maxU)"
    by (cases "rankDeleteRecords srt cands") auto
  have st: "strip ` set ranked = strip ` set cands"
    by (rule rankDeleteRecords_strip[OF s r])
  have se: "set (sortDeleteRecords srt cands) = set ranked"
    by (rule sortDeleteRecords_victim(1)[OF s r])
  have "cacheRecord ` set ranked = (cacheRecord \<circ> strip) ` set ranked"
    by (simp add: comp_def)
  also have "\<dots> = cacheRecord ` (strip ` set ranked)" by (simp add: image_comp)
  also have "\<dots> = cacheRecord ` (strip ` set cands)" using st by simp
  also have "\<dots> = cacheRecord ` set cands" by (simp add: image_comp comp_def)
  finally show "cacheRecord ` set (sortDeleteRecords srt cands) = cacheRecord ` set cands"
    using se by simp
  then show "sortDeleteRecords srt cands \<noteq> []"
    using ne by (metis image_is_empty set_empty)
qed

lemma gcSelect_victim:
  assumes s: "sorts (sort_Slice env)" and ne: "cands \<noteq> []"
  shows "gcSelect env cands cm =
     (commitMetadata env (cacheRecord (hd (sortDeleteRecords (sort_Slice env) cands))),
      [hd (sortDeleteRecords (sort_Slice env) cands)],
      upd (cacheRecord (hd (sortDeleteRecords (sort_Slice env) cands))) (\<lambda>r. r\<lparr>dead := True\<rparr>) cm)"
proof -
  obtain v vs where "sortDeleteRecords (sort_Slice env) cands = v # vs"
    using sortDeleteRecords_nonempty(1)[OF s ne] by (cases "sortDeleteRecords (sort_Slice env) cands") auto
  then show ?thesis
    by (simp add: gcSelect_def markVictim_def)
qed

lemma prunePass_unfold:
  assumes "\<not> (keepBytes opt \<noteq> 0 \<and> totalSize opt < keepBytes opt)"
    and "collect env opt (time_Now env pass - keepDuration opt) (records cm) [] [] cm = (e1, collected, cm1)"
    and "(if gcMode opt \<and> collected \<noteq> [] then gcSelect env collected cm1 else (None, collected, cm1))
           = (e2, toDelete, cm2)"
  shows "prunePass n env opt pass cm ch =
     (if e1 \<noteq> None then Some (Inl (e1, cm1, totalSize opt, ch))
      else if e2 \<noteq> None then Some (Inl (e2, cm2, totalSize opt, ch))
      else if toDelete = [] then Some (Inl (None, cm2, totalSize opt, ch))
      else deleteRecords n env pass toDelete cm2 (totalSize opt) ch)"
  unfolding prunePass_def Let_def using assms(1) unfolding assms(2) prod.case assms(3)
  by auto


lemma doomed_hd: "ds \<noteq> [] \<Longrightarrow> cacheRecord (hd ds) \<in> doomed cm ds"
  by (cases ds) (auto simp: doomed_def)

lemma prunePass_finalized:
  assumes s: "sorts (sort_Slice env)" and f: "finalized cm"
  shows "\<exists>r. prunePass (Suc n) env opt pass cm ch = Some r \<and>
     (case r of
        Inl (e, cm', t, ch') \<Rightarrow>
          e = None \<longrightarrow> cm' = cm \<and> t = totalSize opt
            \<and> ((keepBytes opt \<noteq> 0 \<and> totalSize opt < keepBytes opt) \<or> candidates env opt pass cm = [])
      | Inr (cm', t, ch') \<Rightarrow>
          finalized cm' \<and> length (records cm') < length (records cm)
            \<and> \<not> (keepBytes opt \<noteq> 0 \<and> totalSize opt < keepBytes opt)
            \<and> candidates env opt pass cm \<noteq> [])"
proof (cases "keepBytes opt \<noteq> 0 \<and> totalSize opt < keepBytes opt")
  case True
  then show ?thesis by (simp add: prunePass_def)
next
  case False
  obtain e1 collected cm1 where
    c: "collect env opt (time_Now env pass - keepDuration opt) (records cm) [] [] cm = (e1, collected, cm1)"
    by (cases "collect env opt (time_Now env pass - keepDuration opt) (records cm) [] [] cm") auto
  have cand: "candidates env opt pass cm = collected"
    by (simp add: candidates_def c)
  from collect_general[OF c]
  have c1: "records cm1 = records cm" "sameShape cm cm1"
    "cacheRecord ` set collected \<subseteq> set (records cm)"
    "collected = [] \<longrightarrow> cm1 = cm \<and> e1 = None"
    by auto
  obtain e2 toDelete cm2 where
    g: "(if gcMode opt \<and> collected \<noteq> [] then gcSelect env collected cm1 else (None, collected, cm1))
           = (e2, toDelete, cm2)"
    by (cases "if gcMode opt \<and> collected \<noteq> [] then gcSelect env collected cm1 else (None, collected, cm1)") auto
  note pp = prunePass_unfold[OF False c g, of "Suc n" ch]
  have g2': "records cm2 = records cm \<and> sameShape cm cm2
      \<and> cacheRecord ` set toDelete \<subseteq> set (records cm)
      \<and> (toDelete = [] \<longrightarrow> collected = [] \<and> cm2 = cm1 \<and> e2 = None)"
  proof (cases "gcMode opt \<and> collected \<noteq> []")
    case True
    let ?v = "hd (sortDeleteRecords (sort_Slice env) collected)"
    have ne: "collected \<noteq> []" using True by simp
    have gv: "toDelete = [?v]" "cm2 = upd (cacheRecord ?v) (\<lambda>r. r\<lparr>dead := True\<rparr>) cm1"
      using g True gcSelect_victim[OF s ne, of cm1] by simp_all
    have "?v \<in> set (sortDeleteRecords (sort_Slice env) collected)"
      using sortDeleteRecords_nonempty(1)[OF s ne] by simp
    then have "cacheRecord ?v \<in> cacheRecord ` set collected"
      using sortDeleteRecords_nonempty(2)[OF s ne] by blast
    then have vin: "cacheRecord ?v \<in> set (records cm)" using c1(3) by blast
    have "sameShape cm1 cm2" unfolding gv(2) by (simp add: upd_sameShape shape_def)
    then have "sameShape cm cm2" by (rule sameShape_trans[OF c1(2)])
    moreover have "records cm2 = records cm" unfolding gv(2) using c1(1) by simp
    ultimately show ?thesis
      using gv(1) vin by simp
  next
    case False
    then have "(None, collected, cm1) = (e2, toDelete, cm2)" using g by (simp only: if_False)
    then have "toDelete = collected" "cm2 = cm1" "e2 = None" by simp_all
    then show ?thesis
      using c1 by simp
  qed
  have g2: "records cm2 = records cm" "sameShape cm cm2"
    "cacheRecord ` set toDelete \<subseteq> set (records cm)"
    "toDelete = [] \<longrightarrow> collected = [] \<and> cm2 = cm1 \<and> e2 = None"
    using g2' by blast+
  have f2: "finalized cm2" by (rule sameShape_finalized[OF g2(2) f])
  consider (e1) "e1 \<noteq> None" | (e2) "e1 = None" "e2 \<noteq> None"
    | (none) "e1 = None" "e2 = None" "toDelete = []"
    | (del) "e1 = None" "e2 = None" "toDelete \<noteq> []"
    by blast
  then show ?thesis
  proof cases
    case e1
    then show ?thesis unfolding pp by auto
  next
    case e2
    then show ?thesis unfolding pp by auto
  next
    case none
    then show ?thesis unfolding pp using g2(4) c1(4) cand False by auto
  next
    case del
    from deleteRecords_finalized[OF f2, of n env pass toDelete "totalSize opt" ch]
    obtain r where r: "deleteRecords (Suc n) env pass toDelete cm2 (totalSize opt) ch = Some r"
      "case r of
        Inl (e, cm', t', ch') \<Rightarrow> e \<noteq> None \<and> sameShape cm2 cm' \<and> sameDead cm2 cm'
          \<and> (records cm' = records cm2
               \<or> records cm' = filter (\<lambda>k. k \<notin> doomed cm2 toDelete) (records cm2))
      | Inr (cm', t', ch') \<Rightarrow> sameShape cm2 cm' \<and> sameDead cm2 cm'
          \<and> records cm' = filter (\<lambda>k. k \<notin> doomed cm2 toDelete) (records cm2)"
      by blast
    have pr: "prunePass (Suc n) env opt pass cm ch = Some r"
      unfolding pp using del r(1) by simp
    have ne: "collected \<noteq> []" using del(3) g by (auto split: if_splits)
    show ?thesis
    proof (cases r)
      case (Inl a)
      then show ?thesis using pr r(2) by (auto split: prod.splits)
    next
      case (Inr b)
      obtain cm' t ch' where b: "b = (cm', t, ch')" by (cases b)
      have rr: "sameShape cm2 cm'" "records cm' = filter (\<lambda>k. k \<notin> doomed cm2 toDelete) (records cm2)"
        using r(2) Inr b by simp_all
      have "cacheRecord (hd toDelete) \<in> set (records cm2)"
        using g2(1,3) del(3) by (cases toDelete) auto
      then have "length (records cm') < length (records cm2)"
        unfolding rr(2) using doomed_hd[OF del(3), of cm2]
        by (intro filter_shorter[where x = "cacheRecord (hd toDelete)"]) simp_all
      moreover have "finalized cm'" by (rule sameShape_finalized[OF rr(1) f2])
      ultimately show ?thesis
        using pr Inr b g2(1) False cand ne by simp
    qed
  qed
qed

lemma prune_returns_aux:
  assumes s: "sorts (sort_Slice env)"
  shows "finalized cm \<Longrightarrow>
     \<exists>e cm' t ch' pass'. prune (Suc n) env opt pass cm ch = Some (e, cm', t, ch')
        \<and> (e = None \<longrightarrow> (keepBytes opt \<noteq> 0 \<and> t < keepBytes opt)
                          \<or> candidates env opt pass' cm' = [])"
proof (induction "length (records cm)" arbitrary: cm opt pass ch rule: less_induct)
  case less
  from prunePass_finalized[OF s less.prems, of n opt pass ch]
  obtain r where r: "prunePass (Suc n) env opt pass cm ch = Some r"
    "case r of
        Inl (e, cm', t, ch') \<Rightarrow>
          e = None \<longrightarrow> cm' = cm \<and> t = totalSize opt
            \<and> ((keepBytes opt \<noteq> 0 \<and> totalSize opt < keepBytes opt) \<or> candidates env opt pass cm = [])
      | Inr (cm', t, ch') \<Rightarrow>
          finalized cm' \<and> length (records cm') < length (records cm)
            \<and> \<not> (keepBytes opt \<noteq> 0 \<and> totalSize opt < keepBytes opt)
            \<and> candidates env opt pass cm \<noteq> []"
    by blast
  show ?case
  proof (cases r)
    case (Inl a)
    obtain e cm' t ch' where a: "a = (e, cm', t, ch')" by (cases a)
    have "prune (Suc n) env opt pass cm ch = Some (e, cm', t, ch')"
      by (subst prune.simps) (simp add: r(1) Inl a)
    moreover have "e = None \<longrightarrow> (keepBytes opt \<noteq> 0 \<and> t < keepBytes opt)
                          \<or> candidates env opt pass cm' = []"
      using r(2) Inl a by auto
    ultimately show ?thesis by blast
  next
    case (Inr b)
    obtain cm1 t1 ch1 where b: "b = (cm1, t1, ch1)" by (cases b)
    have 1: "finalized cm1" "length (records cm1) < length (records cm)"
      using r(2) Inr b by simp_all
    from less.hyps[OF 1(2) 1(1), of "opt\<lparr>totalSize := t1\<rparr>" "Suc pass" ch1]
    obtain e cm' t ch' pass' where
      2: "prune (Suc n) env (opt\<lparr>totalSize := t1\<rparr>) (Suc pass) cm1 ch1 = Some (e, cm', t, ch')"
      and h2: "e = None \<longrightarrow> (keepBytes (opt\<lparr>totalSize := t1\<rparr>) \<noteq> 0 \<and> t < keepBytes (opt\<lparr>totalSize := t1\<rparr>))
                 \<or> candidates env (opt\<lparr>totalSize := t1\<rparr>) pass' cm' = []"
      by blast
    have h3: "e = None \<longrightarrow> (keepBytes opt \<noteq> 0 \<and> t < keepBytes opt) \<or> candidates env opt pass' cm' = []"
      using h2 by (simp add: candidates_totalSize)
    have "prune (Suc n) env opt pass cm ch = Some (e, cm', t, ch')"
      by (subst prune.simps) (simp add: r(1) Inr b 2)
    then show ?thesis using h3 by blast
  qed
qed


text \<open>
  A store of three records without parents, twins and handles: \<open>a\<close> (used 3 times, last at time
  10, 40 bytes), \<open>b\<close> (once, at time 5, 60 bytes) and \<open>c\<close> (twice, at time 7, 30 bytes); no call
  fails, and \<^verbatim>\<open>sort.Slice\<close> is the insertion sort.
\<close>

definition example_record :: "nat \<Rightarrow> int \<times> int option \<Rightarrow> int \<Rightarrow> recordState" where
  "example_record m used sz =
     \<lparr>mutable = False, refs = [], parentRefs = [], equalMutable = None, equalImmutable = None,
      dead = False, mu = m, cachePolicyRetain = False, recordType = [], lastUsed = used,
      getSize = sz, triggerLastUsed = (\<lambda>h. False)\<rparr>"

definition example_store :: pruneStore where
  "example_store =
     \<lparr>objs = (\<lambda>c. example_record 0 (0, None) 0)
        (''a'' := example_record 1 (3, Some 10) 40,
         ''b'' := example_record 2 (1, Some 5) 60,
         ''c'' := example_record 3 (2, Some 7) 30),
      records = [''a'', ''b'', ''c'']\<rparr>"

definition example_env :: pruneEnv where
  "example_env =
     \<lparr>sort_Slice = insertionSort, time_Now = (\<lambda>pass. 100), sizeUnknown = - 1,
      updateLastUsed = (\<lambda>(n, t). (n + 1, Some 100)),
      commitMetadata = (\<lambda>c. None), size_call = (\<lambda>c. Inr (Some 0)),
      LeaseManager_Delete = (\<lambda>l. None), MetadataStore_Clear = (\<lambda>c. None),
      ctx_Done = (\<lambda>pass. False)\<rparr>"

definition example_opt :: "int \<Rightarrow> int \<Rightarrow> pruneOpt" where
  "example_opt keep tsize =
     \<lparr>filter_Match = (\<lambda>ui. True), all = False, checkShared = None, keepDuration = 0,
      keepBytes = keep, totalSize = tsize\<rparr>"


lemma prune_example_at_keepBytes:
  "map_option (\<lambda>(e, cm', t, ch'). (e, records cm', t, ch'))
     (prune 1 example_env (example_opt 130 130) 0 example_store [])
   = Some (None, [''a'', ''c''], 70, [''b''])"
  by code_simp








lemma passStore_simps [simp]:
  "passStore (Inl (e, cm', t, ch)) = cm'" "passStore (Inr (cm', t, ch)) = cm'"
  by (simp_all add: passStore_def)


lemma finalized_example_store: "finalized example_store"
  by (simp add: finalized_def example_store_def example_record_def)


lemma sorts_example_env: "sorts (sort_Slice example_env)"
  by (simp add: example_env_def sorts_insertionSort)







text \<open>
  What a caller sees of a result of \<open>prune\<close>: the error, the keys left in \<^verbatim>\<open>cm.records\<close>, the final
  \<^verbatim>\<open>opt.totalSize\<close> and the records sent on \<^verbatim>\<open>ch\<close>.
\<close>

definition outcome ::
  "(error option \<times> pruneStore \<times> int \<times> string list) option
     \<Rightarrow> (error option \<times> string list \<times> int \<times> string list) option" where
  "outcome r = map_option (\<lambda>(e, cm', t, ch'). (e, records cm', t, ch')) r"

text \<open>
  Claim C4 as it is written fails where \<open>totalSize = keepBytes\<close>: the test at the head of \<^verbatim>\<open>prune\<close>
  is \<^verbatim>\<open>opt.totalSize < opt.keepBytes\<close>. In the example store with \<open>keepBytes = totalSize = 130\<close> the
  loop does not stop although \<open>totalSize \<le> keepBytes\<close> holds: it deletes \<open>b\<close> and returns with
  \<open>totalSize = 70\<close>.
\<close>

theorem prune_continues_at_keepBytes:
  "totalSize (example_opt 130 130) \<le> keepBytes (example_opt 130 130)
   \<and> outcome (prune 1 example_env (example_opt 130 130) 0 example_store [])
       = Some (None, [''a'', ''c''], 70, [''b''])"
  by code_simp

lemma prunePass_returns_at_once:
  assumes "(keepBytes opt \<noteq> 0 \<and> totalSize opt < keepBytes opt) \<or> candidates env opt pass cm = []"
  shows "prunePass n env opt pass cm ch = Some (Inl (None, cm, totalSize opt, ch))"
proof (cases "keepBytes opt \<noteq> 0 \<and> totalSize opt < keepBytes opt")
  case True
  then show ?thesis by (simp add: prunePass_def)
next
  case False
  then have ce: "candidates env opt pass cm = []" using assms by blast
  obtain e1 collected cm1 where
    c: "collect env opt (time_Now env pass - keepDuration opt) (records cm) [] [] cm = (e1, collected, cm1)"
    by (cases "collect env opt (time_Now env pass - keepDuration opt) (records cm) [] [] cm") auto
  have col: "collected = []" using ce by (simp add: candidates_def c)
  from collect_general[OF c] have 1: "cm1 = cm" "e1 = None"
    using col by auto
  have g: "(if gcMode opt \<and> collected \<noteq> [] then gcSelect env collected cm1 else (None, collected, cm1))
           = (None, [], cm)"
    using col 1 by simp
  show ?thesis
    using prunePass_unfold[OF False c g, of n ch] 1 by simp
qed

text \<open>
  Claim C4, amended. On a store with the invariant \<open>finalized\<close> and with a \<^verbatim>\<open>sort.Slice\<close> that keeps
  the promise \<open>sorts\<close>, \<^verbatim>\<open>prune\<close> returns (with any fuel but none, \<open>remove\<close> never runs out of it).
  When it returns without an error, \<open>keepBytes\<close> is not zero and the final \<open>totalSize\<close> is less
  than \<open>keepBytes\<close>, or the store it returns has no candidate at the pass of the return. A pass
  returns at once, with no error and nothing changed, exactly when \<open>keepBytes \<noteq> 0\<close> and
  \<open>totalSize < keepBytes\<close>, or there is no candidate; and every pass that goes on to another one
  has deleted at least one key from \<^verbatim>\<open>cm.records\<close>, which is why the recursion ends.
\<close>

theorem prune_returns_below_keepBytes_or_without_candidates:
  assumes "sorts (sort_Slice env)" and "finalized cm"
  shows "(\<exists>e cm' t ch' pass'. prune (Suc n) env opt pass cm ch = Some (e, cm', t, ch')
            \<and> (e = None \<longrightarrow> (keepBytes opt \<noteq> 0 \<and> t < keepBytes opt)
                              \<or> candidates env opt pass' cm' = []))
       \<and> (prunePass (Suc n) env opt pass cm ch = Some (Inl (None, cm, totalSize opt, ch))
            \<longleftrightarrow> (keepBytes opt \<noteq> 0 \<and> totalSize opt < keepBytes opt)
                  \<or> candidates env opt pass cm = [])
       \<and> (\<forall>cm' t ch'. prunePass (Suc n) env opt pass cm ch = Some (Inr (cm', t, ch'))
            \<longrightarrow> length (records cm') < length (records cm))"
proof (intro conjI)
  show "\<exists>e cm' t ch' pass'. prune (Suc n) env opt pass cm ch = Some (e, cm', t, ch')
            \<and> (e = None \<longrightarrow> (keepBytes opt \<noteq> 0 \<and> t < keepBytes opt)
                              \<or> candidates env opt pass' cm' = [])"
    by (rule prune_returns_aux[OF assms])
  from prunePass_finalized[OF assms, of n opt pass ch]
  obtain r where r: "prunePass (Suc n) env opt pass cm ch = Some r"
    "case r of
        Inl (e, cm', t, ch') \<Rightarrow>
          e = None \<longrightarrow> cm' = cm \<and> t = totalSize opt
            \<and> ((keepBytes opt \<noteq> 0 \<and> totalSize opt < keepBytes opt) \<or> candidates env opt pass cm = [])
      | Inr (cm', t, ch') \<Rightarrow>
          finalized cm' \<and> length (records cm') < length (records cm)
            \<and> \<not> (keepBytes opt \<noteq> 0 \<and> totalSize opt < keepBytes opt)
            \<and> candidates env opt pass cm \<noteq> []"
    by blast
  show "prunePass (Suc n) env opt pass cm ch = Some (Inl (None, cm, totalSize opt, ch))
            \<longleftrightarrow> (keepBytes opt \<noteq> 0 \<and> totalSize opt < keepBytes opt)
                  \<or> candidates env opt pass cm = []"
  proof
    assume "prunePass (Suc n) env opt pass cm ch = Some (Inl (None, cm, totalSize opt, ch))"
    then have "r = Inl (None, cm, totalSize opt, ch)" using r(1) by simp
    then show "(keepBytes opt \<noteq> 0 \<and> totalSize opt < keepBytes opt) \<or> candidates env opt pass cm = []"
      using r(2) by simp
  next
    assume "(keepBytes opt \<noteq> 0 \<and> totalSize opt < keepBytes opt) \<or> candidates env opt pass cm = []"
    then show "prunePass (Suc n) env opt pass cm ch = Some (Inl (None, cm, totalSize opt, ch))"
      by (rule prunePass_returns_at_once)
  qed
  show "\<forall>cm' t ch'. prunePass (Suc n) env opt pass cm ch = Some (Inr (cm', t, ch'))
            \<longrightarrow> length (records cm') < length (records cm)"
  proof (intro allI impI)
    fix cm' t ch'
    assume "prunePass (Suc n) env opt pass cm ch = Some (Inr (cm', t, ch'))"
    then have "r = Inr (cm', t, ch')" using r(1) by simp
    then show "length (records cm') < length (records cm)" using r(2) by simp
  qed
qed

text \<open>
  The hypotheses of the theorem of claim C4 hold in the example store.
\<close>

theorem prune_returns_below_keepBytes_or_without_candidates_witness:
  "sorts (sort_Slice example_env) \<and> finalized example_store
   \<and> (\<exists>e cm' t ch'. prune 1 example_env (example_opt 100 130) 0 example_store [] = Some (e, cm', t, ch'))"
proof -
  note th = prune_returns_below_keepBytes_or_without_candidates[OF sorts_example_env
      finalized_example_store, of 0 "example_opt 100 130" 0 "[]"]
  from th[THEN conjunct1] obtain e cm' t ch' where
    "prune (Suc 0) example_env (example_opt 100 130) 0 example_store [] = Some (e, cm', t, ch')"
    by (elim exE conjE) (rule that)
  then show ?thesis
    using sorts_example_env finalized_example_store by (intro conjI exI) simp_all
qed

end
